theory Spec2Isabelle
  imports Complex_Main "HOL-Library.Multiset"
begin

section \<open>The mini-batch pipeline of \<open>DMM/util.py\<close>\<close>

text \<open>
  A shallow embedding of \<open>reverse_sequences\<close>, \<open>get_mini_batch_mask\<close>, \<open>batchify\<close>,
  \<open>get_mini_batch\<close> and \<open>pad_and_reverse\<close>.

  Arrays and tensors are nested lists: a tensor of shape \<open>(B, T, D)\<close> is a list of \<open>B\<close>
  rows, each a list of \<open>T\<close> time steps, each a list of \<open>D\<close> channels. The pipeline only
  moves entries around and fills gaps with zero, so the entry type is any type with a
  zero (the source stores doubles; the conversions \<open>torch.from_numpy\<close> and
  \<open>.type('torch.DoubleTensor')\<close> are the identity on them). A list with no time step
  carries no channel count: an array of shape \<open>(0, D)\<close> is \<open>[]\<close> for every \<open>D\<close>.
  Index arrays hold positions counted from the front (what \<open>np.where\<close> and
  \<open>np.arange\<close> produce), so they are lists of naturals. Device placement (\<open>.cuda()\<close>)
  does not change any entry and is the identity.

  Every exception the code can raise is a value \<open>Inl e\<close> of the result.
\<close>

subsection \<open>Errors\<close>

datatype py_error = IndexError | RuntimeError | TypeError | ZeroDivisionError

definition ebind :: "py_error + 'a \<Rightarrow> ('a \<Rightarrow> py_error + 'b) \<Rightarrow> py_error + 'b" where
  "ebind m f = (case m of Inl e \<Rightarrow> Inl e | Inr v \<Rightarrow> f v)"

text \<open>A loop that builds a list and stops at the first element that raises.\<close>

fun emap :: "('a \<Rightarrow> py_error + 'b) \<Rightarrow> 'a list \<Rightarrow> py_error + 'b list" where
  "emap f [] = Inr []"
| "emap f (x # xs) = ebind (f x) (\<lambda>y. ebind (emap f xs) (\<lambda>ys. Inr (y # ys)))"

subsection \<open>Shapes\<close>

definition shape3 :: "nat \<Rightarrow> nat \<Rightarrow> nat \<Rightarrow> 'a list list list \<Rightarrow> bool" where
  "shape3 B T D x \<longleftrightarrow>
     length x = B \<and> (\<forall>row \<in> set x. length row = T \<and> (\<forall>v \<in> set row. length v = D))"

definition numel :: "'a list list list \<Rightarrow> nat" where
  "numel x = sum_list (map (\<lambda>row. sum_list (map length row)) x)"

subsection \<open>\<open>reverse_sequences\<close>\<close>

text \<open>
  One pass of the loop body, for row \<open>b\<close> with \<open>T = seq_lengths[b]\<close>.
  \<open>torch.arange(T - 1, -1, -1)\<close> raises for \<open>T < 0\<close>; \<open>torch.index_select\<close> raises when
  \<open>T - 1\<close> is not a time step of the row; otherwise the first \<open>T\<close> steps are written
  reversed and the rest keeps the zeros of \<open>torch.zeros_like\<close>.
\<close>

definition reverse_row :: "'a::zero list list \<Rightarrow> int \<Rightarrow> py_error + 'a list list" where
  "reverse_row row T =
     (if T < 0 then Inl RuntimeError
      else if int (length row) < T then Inl IndexError
      else Inr (rev (take (nat T) row) @ map (map (\<lambda>_. 0)) (drop (nat T) row)))"

fun reverse_sequences :: "'a::zero list list list \<Rightarrow> int list \<Rightarrow> py_error + 'a list list list" where
  "reverse_sequences [] seq_lengths = Inr []"
| "reverse_sequences (row # rows) [] = Inl IndexError"
| "reverse_sequences (row # rows) (T # seq_lengths) =
     ebind (reverse_row row T) (\<lambda>r.
     ebind (reverse_sequences rows seq_lengths) (\<lambda>rs. Inr (r # rs)))"

subsection \<open>\<open>get_mini_batch_mask\<close>\<close>

text \<open>
  \<open>mask[b, 0:L] = torch.ones(L)\<close> on a row of \<open>T\<close> zeros: \<open>torch.ones\<close> raises for
  \<open>L < 0\<close>; the slice has \<open>min L T\<close> entries, and the assignment raises unless the
  \<open>L\<close> ones fit it (a single one is broadcast, also to an empty slice).
  The mask holds the floats 0.0 and 1.0, here the integers 0 and 1.
\<close>

definition mask_row :: "nat \<Rightarrow> int \<Rightarrow> py_error + int list" where
  "mask_row T L =
     (if L < 0 then Inl RuntimeError
      else if nat L \<le> T \<or> L = 1
        then Inr (replicate (min (nat L) T) 1 @ replicate (T - nat L) 0)
      else Inl RuntimeError)"

fun get_mini_batch_mask :: "'a list list list \<Rightarrow> int list \<Rightarrow> py_error + int list list" where
  "get_mini_batch_mask [] seq_lengths = Inr []"
| "get_mini_batch_mask (row # rows) [] = Inl IndexError"
| "get_mini_batch_mask (row # rows) (L # seq_lengths) =
     ebind (mask_row (length row) L) (\<lambda>m.
     ebind (get_mini_batch_mask rows seq_lengths) (\<lambda>ms. Inr (m # ms)))"

subsection \<open>Packed sequences\<close>

text \<open>
  \<open>torch.nn.utils.rnn.pack_padded_sequence\<close> and \<open>pad_packed_sequence\<close> belong to the
  library, not to this repository; they are modelled after the library's implementation,
  for \<open>batch_first=True\<close> and the default \<open>enforce_sorted=True\<close>.

  A \<open>PackedSequence\<close> holds the time steps one after the other: \<open>data\<close> lists, for
  \<open>t = 0, 1, ...\<close>, step \<open>t\<close> of every row that is longer than \<open>t\<close>, and
  \<open>batch_sizes[t]\<close> is the number of those rows.
\<close>

record 'a PackedSequence =
  data :: "'a list list"
  batch_sizes :: "nat list"

definition batch_size_at :: "int list \<Rightarrow> nat \<Rightarrow> nat" where
  "batch_size_at lengths t = length (filter (\<lambda>L. int t < L) lengths)"

text \<open>
  Packing raises on an empty tensor, on a lengths vector that has not one entry per row,
  on a last (smallest) length that is not positive and on lengths that are not sorted in
  decreasing order. Time steps beyond the tensor's own are sliced away.
\<close>

definition pack_padded_sequence ::
    "'a list list list \<Rightarrow> int list \<Rightarrow> py_error + 'a PackedSequence" where
  "pack_padded_sequence padded lengths =
     (if numel padded = 0 then Inl RuntimeError
      else if length lengths \<noteq> length padded then Inl RuntimeError
      else if last lengths \<le> 0 then Inl RuntimeError
      else if \<not> sorted (rev lengths) then Inl RuntimeError
      else Inr \<lparr>data = concat (map (\<lambda>t. map (\<lambda>b. padded ! b ! t) [0..<batch_size_at lengths t])
                              [0..<min (nat (hd lengths)) (length (hd padded))]),
               batch_sizes = map (batch_size_at lengths) [0..<nat (hd lengths)]\<rparr>)"

fun split_steps :: "nat list \<Rightarrow> 'a list \<Rightarrow> 'a list list" where
  "split_steps [] rows = []"
| "split_steps (n # ns) rows = take n rows # split_steps ns (drop n rows)"

text \<open>
  Unpacking returns the dense tensor, of as many time steps as there are batch sizes and
  as many rows as the first batch size, and the lengths of its rows. It raises when the
  batch sizes do not add up to the number of data rows or grow; a packed sequence with
  no batch size at all, which packing never produces, is taken to raise as well.
\<close>

definition pad_packed_sequence ::
    "'a::zero PackedSequence \<Rightarrow> py_error + ('a list list list \<times> int list)" where
  "pad_packed_sequence sequence =
     (case batch_sizes sequence of
        [] \<Rightarrow> Inl RuntimeError
      | B # _ \<Rightarrow>
          if sum_list (batch_sizes sequence) \<noteq> length (data sequence)
             \<or> \<not> sorted (rev (batch_sizes sequence))
          then Inl RuntimeError
          else
            let steps = split_steps (batch_sizes sequence) (data sequence);
                padding = (case data sequence of [] \<Rightarrow> [] | v # _ \<Rightarrow> map (\<lambda>_. 0) v)
            in Inr (map (\<lambda>b. map (\<lambda>step. if b < length step then step ! b else padding) steps)
                      [0..<B],
                    map (\<lambda>b. int (length (filter (\<lambda>n. b < n) (batch_sizes sequence))))
                      [0..<B]))"

subsection \<open>\<open>pad_and_reverse\<close>\<close>

definition pad_and_reverse ::
    "'a::zero PackedSequence \<Rightarrow> int list \<Rightarrow> py_error + 'a list list list" where
  "pad_and_reverse rnn_output seq_lengths =
     ebind (pad_packed_sequence rnn_output) (\<lambda>(rnn_output', _).
       reverse_sequences rnn_output' seq_lengths)"

subsection \<open>Library operations used by \<open>get_mini_batch\<close>\<close>

text \<open>
  \<open>arr[idx]\<close> for a numpy array \<open>arr\<close> and an index array \<open>idx\<close>: the entries at the
  positions \<open>idx\<close>, in that order; it raises when a position is out of range. An
  optional array that is \<open>None\<close> is left alone by the source.
\<close>

definition np_take :: "'a list \<Rightarrow> nat list \<Rightarrow> py_error + 'a list" where
  "np_take arr idx = emap (\<lambda>i. if i < length arr then Inr (arr ! i) else Inl IndexError) idx"

definition np_take_opt :: "'a list option \<Rightarrow> nat list \<Rightarrow> py_error + 'a list option" where
  "np_take_opt arr idx =
     (case arr of
        None \<Rightarrow> Inr None
      | Some a \<Rightarrow> ebind (np_take a idx) (\<lambda>r. Inr (Some r)))"

text \<open>
  \<open>torch.sort\<close> belongs to the library. Its second result lists the positions of the
  entries in ascending order of value; the order it gives to equal entries is promised
  only under \<open>stable=True\<close>, which the source does not pass. The pipeline is therefore
  modelled for every sort that meets the library's contract: \<open>torch_sort\<close> is the type of
  the functions that return a permutation of the positions along which the values
  ascend, and \<open>get_mini_batch\<close> and \<open>batchify\<close> take the sort as their first argument.
\<close>

definition ascending_argsort :: "(int list \<Rightarrow> nat list) \<Rightarrow> bool" where
  "ascending_argsort f \<longleftrightarrow>
     (\<forall>xs. mset (f xs) = mset [0..<length xs] \<and> sorted (map ((!) xs) (f xs)))"

typedef torch_sort = "{f. ascending_argsort f}"
proof
  show "(\<lambda>xs. sort_key (\<lambda>i. xs ! i) [0..<length xs]) \<in> {f. ascending_argsort f}"
    by (simp add: ascending_argsort_def)
qed

setup_lifting type_definition_torch_sort

text \<open>
  One such sort, for the runs on concrete data: the one that keeps equal entries in
  their order, as the library's sort does on the short inputs used there.
\<close>

lift_definition stable_sort :: torch_sort is "\<lambda>xs. sort_key (\<lambda>i. xs ! i) [0..<length xs]"
  by (simp add: ascending_argsort_def)

text \<open>\<open>x[:T_max, :]\<close>; a negative bound counts from the end.\<close>

definition slice_upto :: "'a list \<Rightarrow> int \<Rightarrow> 'a list" where
  "slice_upto x T = (if 0 \<le> T then take (nat T) x else take (length x - nat (- T)) x)"

text \<open>
  \<open>pad_sequence(sequences, batch_first=True)\<close>: every sequence is copied into a zero
  tensor of as many time steps as the longest sequence and of the channel count of the
  first sequence. The copy broadcasts a time step of one channel and raises on any other
  channel count. The channel count of the first sequence is read off the first time
  step in the batch (a sequence without time steps carries none in this model).
\<close>

definition broadcast_row :: "nat \<Rightarrow> 'a list \<Rightarrow> py_error + 'a list" where
  "broadcast_row D v =
     (if length v = D then Inr v
      else if length v = 1 then Inr (replicate D (hd v))
      else Inl RuntimeError)"

definition pad_sequence :: "'a::zero list list list \<Rightarrow> py_error + 'a list list list" where
  "pad_sequence sequences =
     (if sequences = [] then Inl RuntimeError
      else
        let max_len = Max (set (map length sequences));
            D = (case concat sequences of [] \<Rightarrow> 0 | v # _ \<Rightarrow> length v)
        in emap (\<lambda>x. ebind (emap (broadcast_row D) x) (\<lambda>x'.
                   Inr (x' @ replicate (max_len - length x) (replicate D 0))))
             sequences)"

text \<open>\<open>torch.cat((a, b), dim=-1)\<close> on two tensors of three axes with as many rows.\<close>

definition cat_channels ::
    "'a list list list \<Rightarrow> 'a list list list \<Rightarrow> py_error + 'a list list list" where
  "cat_channels a b =
     (if map length a = map length b then Inr (map2 (map2 (@)) a b) else Inl RuntimeError)"

subsection \<open>\<open>get_mini_batch\<close>\<close>

text \<open>
  The nine results of \<open>get_mini_batch\<close>, in the order of its \<open>return\<close>:
  \<open>mini_batch_static\<close>, \<open>mini_batch\<close>, \<open>mini_batch_reversed_with_mask\<close>,
  \<open>mini_batch_mask\<close>, \<open>sorted_seq_lengths\<close>, \<open>mini_batch_feature_mask\<close>,
  \<open>y_mini_batch\<close>, \<open>y_mask_mini_batch\<close> and
  \<open>indices_dataset[sorted_mini_batch_indices]\<close>.
\<close>

record 'a MiniBatch =
  mb_static :: "'a list list"
  mb_sequence :: "'a list list list"
  mb_reversed_packed :: "'a PackedSequence"
  mb_mask :: "int list list"
  mb_sorted_seq_lengths :: "int list"
  mb_feature_mask :: "'a list list list option"
  mb_y :: "'a list option"
  mb_y_mask :: "'a list option"
  mb_source_indices :: "nat list"

text \<open>
  \<open>torch.sort\<close> followed by \<open>flip(0)\<close>: positions within the batch, longest first.
\<close>

definition sorted_seq_length_indices :: "torch_sort \<Rightarrow> int list \<Rightarrow> nat list" where
  "sorted_seq_length_indices srt seq_lengths = rev (Rep_torch_sort srt seq_lengths)"

text \<open>
  The three branches on the feature mask: the dense feature mask to return and the
  tensor that is reversed.
\<close>

definition reverse_with_mask ::
    "'a::zero list list list \<Rightarrow> int list \<Rightarrow> int \<Rightarrow> nat list \<Rightarrow> 'a list list list option \<Rightarrow> bool
      \<Rightarrow> py_error + ('a list list list option \<times> 'a list list list)" where
  "reverse_with_mask mini_batch sorted_seq_lengths T_max sorted_mini_batch_indices
       sequences_feature_mask use_feature_mask =
     (case sequences_feature_mask of
        None \<Rightarrow>
          ebind (reverse_sequences mini_batch sorted_seq_lengths) (\<lambda>r. Inr (None, r))
      | Some fm \<Rightarrow>
          if \<not> use_feature_mask then
            ebind (np_take fm sorted_mini_batch_indices) (\<lambda>g.
            ebind (pad_sequence (map (\<lambda>x. slice_upto x T_max) g)) (\<lambda>mini_batch_feature_mask.
            ebind (reverse_sequences mini_batch sorted_seq_lengths) (\<lambda>r.
              Inr (Some mini_batch_feature_mask, r))))
          else
            ebind (np_take fm sorted_mini_batch_indices) (\<lambda>g.
            ebind (pad_sequence (map (\<lambda>x. slice_upto x T_max) g)) (\<lambda>mini_batch_feature_mask.
            ebind (cat_channels mini_batch mini_batch_feature_mask) (\<lambda>c.
            ebind (reverse_sequences c sorted_seq_lengths) (\<lambda>r.
              Inr (Some mini_batch_feature_mask, r))))))"

text \<open>
  \<open>static\<close> and \<open>indices_dataset\<close> default to \<open>None\<close> and are subscripted without a
  test, which raises \<open>TypeError\<close>. \<open>torch.max\<close> raises on an empty batch.
\<close>

definition get_mini_batch ::
    "torch_sort \<Rightarrow> nat list \<Rightarrow> 'a::zero list list list \<Rightarrow> int list \<Rightarrow> 'a list list list option
      \<Rightarrow> 'a list list option \<Rightarrow> 'a list option \<Rightarrow> 'a list option \<Rightarrow> nat list option
      \<Rightarrow> bool \<Rightarrow> bool \<Rightarrow> py_error + 'a MiniBatch" where
  "get_mini_batch srt mini_batch_indices sequences seq_lengths sequences_feature_mask static
       y_sequence y_mask_sequence indices_dataset use_feature_mask cuda =
     ebind (np_take seq_lengths mini_batch_indices) (\<lambda>seq_lengths.
     let sorted_seq_lengths = map (\<lambda>i. seq_lengths ! i) (sorted_seq_length_indices srt seq_lengths);
         sorted_mini_batch_indices =
           map (\<lambda>i. mini_batch_indices ! i) (sorted_seq_length_indices srt seq_lengths)
     in
     if seq_lengths = [] then Inl RuntimeError
     else
     let T_max = Max (set seq_lengths) in
     ebind (np_take sequences sorted_mini_batch_indices) (\<lambda>gathered.
     ebind (pad_sequence (map (\<lambda>x. slice_upto x T_max) gathered)) (\<lambda>mini_batch.
     ebind (case static of None \<Rightarrow> Inl TypeError
            | Some st \<Rightarrow> np_take st sorted_mini_batch_indices) (\<lambda>mini_batch_static.
     ebind (get_mini_batch_mask mini_batch sorted_seq_lengths) (\<lambda>mini_batch_mask.
     ebind (np_take_opt y_sequence sorted_mini_batch_indices) (\<lambda>y_mini_batch.
     ebind (np_take_opt y_mask_sequence sorted_mini_batch_indices) (\<lambda>y_mask_mini_batch.
     ebind (reverse_with_mask mini_batch sorted_seq_lengths T_max sorted_mini_batch_indices
              sequences_feature_mask use_feature_mask)
       (\<lambda>(mini_batch_feature_mask, mini_batch_reversed_with_mask).
     ebind (pack_padded_sequence mini_batch_reversed_with_mask sorted_seq_lengths) (\<lambda>packed.
     ebind (case indices_dataset of None \<Rightarrow> Inl TypeError
            | Some ids \<Rightarrow> np_take ids sorted_mini_batch_indices) (\<lambda>source.
       Inr \<lparr>mb_static = mini_batch_static, mb_sequence = mini_batch,
            mb_reversed_packed = packed, mb_mask = mini_batch_mask,
            mb_sorted_seq_lengths = sorted_seq_lengths,
            mb_feature_mask = mini_batch_feature_mask, mb_y = y_mini_batch,
            mb_y_mask = y_mask_mini_batch, mb_source_indices = source\<rparr>))))))))))"

text \<open>
  The values of \<open>sorted_mini_batch_indices\<close> and \<open>T_max\<close> in a run of \<open>get_mini_batch\<close>
  on \<open>mini_batch_indices\<close> and \<open>seq_lengths\<close>, and a stored array truncated to \<open>T\<close> time
  steps and padded with zero steps of \<open>D\<close> channels to exactly \<open>T\<close>.
\<close>

definition sorted_mini_batch_indices_of :: "torch_sort \<Rightarrow> nat list \<Rightarrow> int list \<Rightarrow> nat list" where
  "sorted_mini_batch_indices_of srt mini_batch_indices seq_lengths =
     map ((!) mini_batch_indices)
       (sorted_seq_length_indices srt (map ((!) seq_lengths) mini_batch_indices))"

definition T_max_of :: "nat list \<Rightarrow> int list \<Rightarrow> int" where
  "T_max_of mini_batch_indices seq_lengths = Max (set (map ((!) seq_lengths) mini_batch_indices))"

definition trunc_pad :: "nat \<Rightarrow> nat \<Rightarrow> 'a::zero list list \<Rightarrow> 'a list list" where
  "trunc_pad T D x = take T x @ replicate (T - length x) (replicate D 0)"

subsection \<open>\<open>batchify\<close>\<close>

text \<open>
  \<open>np.where(np.logical_and(seq_lengths <= max_len, seq_lengths > 0))[0]\<close>.
\<close>

definition keep_index_of :: "int list \<Rightarrow> int \<Rightarrow> nat list" where
  "keep_index_of seq_lengths max_len =
     filter (\<lambda>i. seq_lengths ! i \<le> max_len \<and> seq_lengths ! i > 0) [0..<length seq_lengths]"

text \<open>The arrays after the filter (lines 244 to 254 of the source).\<close>

record 'a Kept =
  keep_index :: "nat list"
  kept_static :: "'a list list"
  kept_sequences :: "'a list list list"
  kept_seq_lengths :: "int list"
  kept_feature_mask :: "'a list list list option"
  kept_y :: "'a list option"
  kept_y_mask :: "'a list option"

definition batchify_filter ::
    "'a list list list \<Rightarrow> int list \<Rightarrow> 'a list list list option \<Rightarrow> 'a list list
      \<Rightarrow> 'a list option \<Rightarrow> 'a list option \<Rightarrow> int \<Rightarrow> py_error + 'a Kept" where
  "batchify_filter sequences seq_lengths sequences_feature_mask static y_sequence
       y_mask_sequence max_len =
     (let keep = keep_index_of seq_lengths max_len in
      ebind (np_take static keep) (\<lambda>static'.
      ebind (np_take sequences keep) (\<lambda>sequences'.
      ebind (np_take seq_lengths keep) (\<lambda>seq_lengths'.
      ebind (np_take_opt sequences_feature_mask keep) (\<lambda>sequences_feature_mask'.
      ebind (np_take_opt y_sequence keep) (\<lambda>y_sequence'.
      ebind (np_take_opt y_mask_sequence keep) (\<lambda>y_mask_sequence'.
        Inr \<lparr>keep_index = keep, kept_static = static', kept_sequences = sequences',
             kept_seq_lengths = seq_lengths', kept_feature_mask = sequences_feature_mask',
             kept_y = y_sequence', kept_y_mask = y_mask_sequence'\<rparr>)))))))"

text \<open>
  \<open>int(N_data / batch_size + int(N_data % batch_size > 0))\<close>: a true division (it
  raises on a zero batch size), here exact, and \<open>int\<close>, which rounds towards zero.
\<close>

definition py_int :: "rat \<Rightarrow> int" where
  "py_int r = (if r < 0 then \<lceil>r\<rceil> else \<lfloor>r\<rfloor>)"

definition N_mini_batches_of :: "nat \<Rightarrow> int \<Rightarrow> int" where
  "N_mini_batches_of N_data batch_size =
     py_int (of_nat N_data / of_int batch_size + of_bool (int N_data mod batch_size > 0))"

text \<open>
  The index chunk of one pass of the loop, \<open>shuffled_indices[start:end]\<close> with
  \<open>shuffled_indices = np.arange(N_data)\<close>. The loop runs only for a positive batch size,
  so both bounds are natural numbers.
\<close>

definition mini_batch_indices_of :: "nat \<Rightarrow> int \<Rightarrow> nat \<Rightarrow> nat list" where
  "mini_batch_indices_of N_data batch_size which_mini_batch =
     (let mini_batch_start = int which_mini_batch * batch_size;
          mini_batch_end = min ((int which_mini_batch + 1) * batch_size) (int N_data)
      in [nat mini_batch_start..<nat mini_batch_end])"

definition batchify ::
    "torch_sort \<Rightarrow> 'a::zero list list list \<Rightarrow> int list \<Rightarrow> 'a list list list option \<Rightarrow> 'a list list
      \<Rightarrow> 'a list option \<Rightarrow> 'a list option \<Rightarrow> int \<Rightarrow> int \<Rightarrow> bool \<Rightarrow> bool
      \<Rightarrow> py_error + 'a MiniBatch list" where
  "batchify srt sequences seq_lengths sequences_feature_mask static y_sequence y_mask_sequence
       max_len batch_size use_feature_mask cuda =
     ebind (batchify_filter sequences seq_lengths sequences_feature_mask static y_sequence
              y_mask_sequence max_len) (\<lambda>k.
     let N_data = length (kept_seq_lengths k) in
     if batch_size = 0 then Inl ZeroDivisionError
     else
       emap (\<lambda>which_mini_batch.
               get_mini_batch srt (mini_batch_indices_of N_data batch_size which_mini_batch)
                 (kept_sequences k) (kept_seq_lengths k) (kept_feature_mask k)
                 (Some (kept_static k)) (kept_y k) (kept_y_mask k) (Some (keep_index k))
                 use_feature_mask cuda)
         [0..<nat (N_mini_batches_of N_data batch_size)])"

text \<open>
  The composition \<open>pad_and_reverse(pack_padded_sequence(reverse_sequences(x, L), L), L)\<close>.
\<close>

definition reverse_pack_unpack ::
    "'a::zero list list list \<Rightarrow> int list \<Rightarrow> py_error + 'a list list list" where
  "reverse_pack_unpack x seq_lengths =
     ebind (reverse_sequences x seq_lengths) (\<lambda>r.
     ebind (pack_padded_sequence r seq_lengths) (\<lambda>p.
       pad_and_reverse p seq_lengths))"

section \<open>Properties\<close>

subsection \<open>The error monad\<close>

lemma ebind_Inr [simp]: "ebind (Inr v) f = f v"
  by (simp add: ebind_def)

lemma ebind_Inl [simp]: "ebind (Inl e) f = Inl e"
  by (simp add: ebind_def)

lemma ebind_eq_Inr: "ebind m f = Inr y \<longleftrightarrow> (\<exists>v. m = Inr v \<and> f v = Inr y)"
  by (cases m) simp_all

lemma emap_Inr_map:
  "(\<And>x. x \<in> set xs \<Longrightarrow> f x = Inr (g x)) \<Longrightarrow> emap f xs = Inr (map g xs)"
  by (induction xs) simp_all

lemma emap_eq_Inr:
  "emap f xs = Inr ys \<Longrightarrow> length ys = length xs \<and> (\<forall>i < length xs. f (xs ! i) = Inr (ys ! i))"
proof (induction xs arbitrary: ys)
  case Nil
  then show ?case by simp
next
  case (Cons x xs)
  from Cons.prems obtain y ys' where y: "f x = Inr y" and ys': "emap f xs = Inr ys'"
    and eq: "ys = y # ys'"
    by (auto simp: ebind_eq_Inr)
  from Cons.IH [OF ys'] y eq show ?case
    by (auto simp: nth_Cons split: nat.splits)
qed

subsection \<open>Shapes\<close>

lemma shape3_nth:
  assumes "shape3 B T D x"
  shows "length x = B" and "b < B \<Longrightarrow> length (x ! b) = T"
    and "b < B \<Longrightarrow> t < T \<Longrightarrow> length (x ! b ! t) = D"
proof -
  from assms show lx: "length x = B" by (simp add: shape3_def)
  { assume b: "b < B"
    with lx have mem: "x ! b \<in> set x" by simp
    with assms show lr: "length (x ! b) = T" by (simp add: shape3_def)
    assume "t < T"
    with lr have "x ! b ! t \<in> set (x ! b)" by simp
    with assms mem show "length (x ! b ! t) = D" by (simp add: shape3_def) }
qed

lemma shape3_I:
  assumes "length x = B" and "\<And>b. b < B \<Longrightarrow> length (x ! b) = T"
    and "\<And>b t. b < B \<Longrightarrow> t < T \<Longrightarrow> length (x ! b ! t) = D"
  shows "shape3 B T D x"
  unfolding shape3_def
proof (intro conjI ballI)
  show "length x = B" by fact
next
  fix row assume "row \<in> set x"
  then obtain b where b: "b < B" "row = x ! b"
    using assms(1) by (metis in_set_conv_nth)
  then show "length row = T" using assms(2) by simp
  fix v assume "v \<in> set row"
  then obtain t where "t < length row" "v = row ! t"
    by (metis in_set_conv_nth)
  with b assms(2,3) show "length v = D" by simp
qed

subsection \<open>Reversal\<close>

lemma reverse_sequences_Inr:
  assumes "length Ls = length x"
    and "\<forall>b < length x. 0 \<le> Ls ! b \<and> Ls ! b \<le> int (length (x ! b))"
  shows "reverse_sequences x Ls =
     Inr (map (\<lambda>(row, L). rev (take (nat L) row) @ map (map (\<lambda>_. 0)) (drop (nat L) row))
            (zip x Ls))"
  using assms
proof (induction x Ls rule: reverse_sequences.induct)
  case (1 seq_lengths)
  then show ?case by simp
next
  case (2 row rows)
  then show ?case by simp
next
  case (3 row rows T seq_lengths)
  from "3.prems"(2) have h0: "0 \<le> T \<and> T \<le> int (length row)"
    by (metis length_Cons nth_Cons_0 zero_less_Suc)
  have hs: "\<forall>b < length rows. 0 \<le> seq_lengths ! b \<and> seq_lengths ! b \<le> int (length (rows ! b))"
  proof (intro allI impI)
    fix b assume "b < length rows"
    then have "Suc b < length (row # rows)" by simp
    from "3.prems"(2) [rule_format, OF this] show
      "0 \<le> seq_lengths ! b \<and> seq_lengths ! b \<le> int (length (rows ! b))"
      by simp
  qed
  from "3.prems"(1) have "length seq_lengths = length rows" by simp
  from "3.IH" [OF this hs] h0 show ?case
    by (simp add: reverse_row_def)
qed

lemma reverse_row_nth:
  assumes "L \<le> length row" and "t < length row"
  shows "(rev (take L row) @ map (map (\<lambda>_. 0)) (drop L row)) ! t =
     (if t < L then row ! (L - 1 - t) else map (\<lambda>_. 0) (row ! t))"
proof (cases "t < L")
  case True
  with assms show ?thesis
    by (simp add: nth_append rev_nth)
next
  case False
  with assms show ?thesis
    by (simp add: nth_append)
qed

lemma reverse_sequences_shape3:
  assumes "shape3 B T D x" and "length Ls = B"
    and "\<forall>b < B. 0 \<le> Ls ! b \<and> Ls ! b \<le> int T"
  shows "\<exists>out. reverse_sequences x Ls = Inr out \<and> shape3 B T D out \<and>
     (\<forall>b < B. \<forall>t < T.
        out ! b ! t = (if int t < Ls ! b then x ! b ! (nat (Ls ! b) - 1 - t) else replicate D 0))"
proof -
  let ?f = "\<lambda>(row, L). rev (take (nat L) row) @ map (map (\<lambda>_. 0::'a)) (drop (nat L) row)"
  let ?out = "map ?f (zip x Ls)"
  from assms(1) have lx: "length x = B" and rows: "\<And>b. b < B \<Longrightarrow> length (x ! b) = T"
    and vecs: "\<And>b t. b < B \<Longrightarrow> t < T \<Longrightarrow> length (x ! b ! t) = D"
    by (simp_all add: shape3_nth)
  have "\<forall>b < length x. 0 \<le> Ls ! b \<and> Ls ! b \<le> int (length (x ! b))"
    using assms(3) lx rows by simp
  with assms(2) lx have res: "reverse_sequences x Ls = Inr ?out"
    by (intro reverse_sequences_Inr) simp_all
  have row_b: "?out ! b = ?f (x ! b, Ls ! b)" if "b < B" for b
    using that lx assms(2) by simp
  have zeros: "map (\<lambda>_. 0::'a) (x ! b ! t) = replicate D 0" if "b < B" "t < T" for b t
    using vecs [OF that] by (simp add: map_replicate_const)
  have nth: "?out ! b ! t =
      (if int t < Ls ! b then x ! b ! (nat (Ls ! b) - 1 - t) else replicate D 0)"
    if "b < B" "t < T" for b t
  proof -
    from that assms(3) rows have "nat (Ls ! b) \<le> length (x ! b)" "t < length (x ! b)"
      by auto
    from reverse_row_nth [OF this] row_b [OF that(1)] zeros [OF that] show ?thesis
      by (simp add: zless_nat_eq_int_zless)
  qed
  have len_row: "length (?out ! b) = T" if "b < B" for b
    using that rows [OF that] assms(3) by (simp add: row_b)
  have len_vec: "length (?out ! b ! t) = D" if "b < B" "t < T" for b t
  proof (cases "int t < Ls ! b")
    case True
    with that assms(3) have "nat (Ls ! b) - 1 - t < T" by auto
    with nth [OF that] True vecs [OF that(1)] show ?thesis by simp
  next
    case False
    with nth [OF that] show ?thesis by simp
  qed
  have "length ?out = B" using lx assms(2) by simp
  then have shape: "shape3 B T D ?out"
    using len_row len_vec by (rule shape3_I)
  from res shape nth show ?thesis by blast
qed

text \<open>
  C3. On a padded batch of shape \<open>(B, T, D)\<close> with every length in \<open>[0, T]\<close>,
  \<open>reverse_sequences\<close> returns an array of the same shape whose row \<open>b\<close> is the input
  row reversed over the first \<open>L_b\<close> time steps and zero from \<open>L_b\<close> on, whatever the
  input holds there.
\<close>

theorem reverse_sequences_correct:
  assumes "shape3 B T D x" and "length Ls = B"
    and "\<forall>b < B. 0 \<le> Ls ! b \<and> Ls ! b \<le> int T"
  shows "\<exists>out. reverse_sequences x Ls = Inr out \<and> shape3 B T D out \<and>
     (\<forall>b < B. \<forall>t < T.
        (int t < Ls ! b \<longrightarrow> out ! b ! t = x ! b ! (nat (Ls ! b) - 1 - t)) \<and>
        (Ls ! b \<le> int t \<longrightarrow> out ! b ! t = replicate D 0))"
proof -
  from reverse_sequences_shape3 [OF assms] obtain out where
    out: "reverse_sequences x Ls = Inr out" "shape3 B T D out"
    and nth: "\<forall>b < B. \<forall>t < T.
        out ! b ! t = (if int t < Ls ! b then x ! b ! (nat (Ls ! b) - 1 - t) else replicate D 0)"
    by blast
  have "\<forall>b < B. \<forall>t < T.
        (int t < Ls ! b \<longrightarrow> out ! b ! t = x ! b ! (nat (Ls ! b) - 1 - t)) \<and>
        (Ls ! b \<le> int t \<longrightarrow> out ! b ! t = replicate D 0)"
    using nth by simp
  with out show ?thesis by blast
qed

theorem reverse_sequences_correct_witness:
  "shape3 2 3 1 [[[1], [2], [3]], [[4], [5], [9::int]]] \<and> length [3, 2::int] = 2 \<and>
   (\<exists>out. reverse_sequences [[[1], [2], [3]], [[4], [5], [9::int]]] [3, 2] = Inr out \<and>
      shape3 2 3 1 out \<and>
      (\<forall>b < 2. \<forall>t < 3.
        (int t < [3, 2::int] ! b \<longrightarrow>
           out ! b ! t = [[[1], [2], [3]], [[4], [5], [9::int]]] ! b ! (nat ([3, 2::int] ! b) - 1 - t)) \<and>
        ([3, 2::int] ! b \<le> int t \<longrightarrow> out ! b ! t = replicate 1 0)))"
proof -
  have h1: "shape3 2 3 1 [[[1], [2], [3]], [[4], [5], [9::int]]]"
    by (simp add: shape3_def)
  have h2: "length [3, 2::int] = 2" by simp
  have h3: "\<forall>b < 2. 0 \<le> [3, 2::int] ! b \<and> [3, 2::int] ! b \<le> int 3"
    by (simp add: less_Suc_eq numeral_2_eq_2)
  from reverse_sequences_correct [OF h1 h2 h3] h1 h2 show ?thesis by blast
qed

subsection \<open>The mask\<close>

lemma mask_row_Inr:
  "0 \<le> L \<Longrightarrow> L \<le> int T \<Longrightarrow>
     mask_row T L = Inr (replicate (nat L) 1 @ replicate (T - nat L) 0)"
proof -
  assume "0 \<le> L" "L \<le> int T"
  then have "nat L \<le> T" by linarith
  with \<open>0 \<le> L\<close> show ?thesis by (simp add: mask_row_def min_def)
qed

lemma get_mini_batch_mask_Inr:
  assumes "length Ls = length x"
    and "\<forall>b < length x. 0 \<le> Ls ! b \<and> Ls ! b \<le> int (length (x ! b))"
  shows "get_mini_batch_mask x Ls =
     Inr (map (\<lambda>(row, L). replicate (nat L) 1 @ replicate (length row - nat L) 0) (zip x Ls))"
  using assms
proof (induction x Ls rule: get_mini_batch_mask.induct)
  case (1 seq_lengths)
  then show ?case by simp
next
  case (2 row rows)
  then show ?case by simp
next
  case (3 row rows L seq_lengths)
  from "3.prems"(2) have h0: "0 \<le> L \<and> L \<le> int (length row)"
    by (metis length_Cons nth_Cons_0 zero_less_Suc)
  have hs: "\<forall>b < length rows. 0 \<le> seq_lengths ! b \<and> seq_lengths ! b \<le> int (length (rows ! b))"
  proof (intro allI impI)
    fix b assume "b < length rows"
    then have "Suc b < length (row # rows)" by simp
    from "3.prems"(2) [rule_format, OF this] show
      "0 \<le> seq_lengths ! b \<and> seq_lengths ! b \<le> int (length (rows ! b))"
      by simp
  qed
  from "3.prems"(1) have "length seq_lengths = length rows" by simp
  from "3.IH" [OF this hs] h0 show ?case
    by (simp add: mask_row_Inr)
qed

text \<open>
  C5. For a mini-batch of shape \<open>(B, T_max, ...)\<close> and lengths in \<open>[0, T_max]\<close>,
  \<open>get_mini_batch_mask\<close> returns a \<open>(B, T_max)\<close> array with \<open>mask[b,t] = 1\<close> exactly when
  \<open>t < seq_lengths[b]\<close>, and \<open>mask[b,t] = 0\<close> for every \<open>t \<ge> seq_lengths[b]\<close>.
\<close>

theorem get_mini_batch_mask_correct:
  assumes "length x = B" and "\<forall>row \<in> set x. length row = T" and "length Ls = B"
    and "\<forall>b < B. 0 \<le> Ls ! b \<and> Ls ! b \<le> int T"
  shows "\<exists>mask. get_mini_batch_mask x Ls = Inr mask \<and> length mask = B \<and>
     (\<forall>b < B. length (mask ! b) = T \<and>
        (\<forall>t < T. (mask ! b ! t = 1 \<longleftrightarrow> int t < Ls ! b) \<and>
                 (Ls ! b \<le> int t \<longrightarrow> mask ! b ! t = 0)))"
proof -
  let ?f = "\<lambda>(row :: 'a list list, L). replicate (nat L) (1::int) @ replicate (length row - nat L) 0"
  let ?mask = "map ?f (zip x Ls)"
  have rows: "length (x ! b) = T" if "b < B" for b
    using that assms(1,2) by simp
  have "\<forall>b < length x. 0 \<le> Ls ! b \<and> Ls ! b \<le> int (length (x ! b))"
    using assms(1,4) rows by simp
  with assms(1,3) have res: "get_mini_batch_mask x Ls = Inr ?mask"
    by (intro get_mini_batch_mask_Inr) simp_all
  have len: "length ?mask = B" using assms(1,3) by simp
  have row_b: "?mask ! b = replicate (nat (Ls ! b)) 1 @ replicate (T - nat (Ls ! b)) 0"
    if "b < B" for b
    using that assms(1,3) rows [OF that] by simp
  have main: "\<forall>b < B. length (?mask ! b) = T \<and>
        (\<forall>t < T. (?mask ! b ! t = 1 \<longleftrightarrow> int t < Ls ! b) \<and>
                 (Ls ! b \<le> int t \<longrightarrow> ?mask ! b ! t = 0))"
  proof (intro allI impI)
    fix b assume b: "b < B"
    with assms(4) have bounds: "0 \<le> Ls ! b" "nat (Ls ! b) \<le> T" by auto
    then have l: "length (?mask ! b) = T" by (simp add: row_b [OF b])
    have "(?mask ! b ! t = 1 \<longleftrightarrow> int t < Ls ! b) \<and> (Ls ! b \<le> int t \<longrightarrow> ?mask ! b ! t = 0)"
      if "t < T" for t
    proof (cases "t < nat (Ls ! b)")
      case True
      then show ?thesis by (simp add: row_b [OF b] nth_append)
    next
      case False
      with that bounds show ?thesis by (simp add: row_b [OF b] nth_append)
    qed
    with l show "length (?mask ! b) = T \<and>
        (\<forall>t < T. (?mask ! b ! t = 1 \<longleftrightarrow> int t < Ls ! b) \<and>
                 (Ls ! b \<le> int t \<longrightarrow> ?mask ! b ! t = 0))"
      by blast
  qed
  from res len main show ?thesis by blast
qed

theorem get_mini_batch_mask_correct_witness:
  "length [[[7], [8], [9]], [[4], [5], [0::int]]] = 2 \<and> length [3, 2::int] = 2 \<and>
   (\<exists>mask. get_mini_batch_mask [[[7], [8], [9]], [[4], [5], [0::int]]] [3, 2] = Inr mask \<and>
      length mask = 2 \<and>
      (\<forall>b < 2. length (mask ! b) = 3 \<and>
        (\<forall>t < 3. (mask ! b ! t = 1 \<longleftrightarrow> int t < [3, 2::int] ! b) \<and>
                 ([3, 2::int] ! b \<le> int t \<longrightarrow> mask ! b ! t = 0))))"
proof -
  have h1: "length [[[7], [8], [9]], [[4], [5], [0::int]]] = 2" by simp
  have h2: "\<forall>row \<in> set [[[7], [8], [9]], [[4], [5], [0::int]]]. length row = 3" by simp
  have h3: "length [3, 2::int] = 2" by simp
  have h4: "\<forall>b < 2. 0 \<le> [3, 2::int] ! b \<and> [3, 2::int] ! b \<le> int 3"
    by (simp add: less_Suc_eq numeral_2_eq_2)
  from get_mini_batch_mask_correct [OF h1 h2 h3 h4] h1 h3 show ?thesis by blast
qed

subsection \<open>Packing and unpacking\<close>

lemma sum_list_const: "(\<And>x. x \<in> set xs \<Longrightarrow> f x = (c::nat)) \<Longrightarrow> sum_list (map f xs) = length xs * c"
  by (induction xs) simp_all

lemma numel_shape3: "shape3 B T D x \<Longrightarrow> numel x = B * T * D"
proof -
  assume s: "shape3 B T D x"
  have "sum_list (map length row) = T * D" if "row \<in> set x" for row
  proof -
    from s that have "length row = T" "\<And>v. v \<in> set row \<Longrightarrow> length v = D"
      by (auto simp: shape3_def)
    with sum_list_const [of row length D] show ?thesis by simp
  qed
  from sum_list_const [of x "\<lambda>row. sum_list (map length row)" "T * D", OF this] s
  show ?thesis by (simp add: numel_def shape3_def)
qed

lemma batch_size_at_less:
  "sorted (rev Ls) \<Longrightarrow> b < length Ls \<Longrightarrow> b < batch_size_at Ls t \<longleftrightarrow> int t < Ls ! b"
proof (induction Ls arbitrary: b)
  case Nil
  then show ?case by simp
next
  case (Cons a Ls)
  from Cons.prems(1) have srt: "sorted (rev Ls)" and le: "\<forall>x \<in> set Ls. x \<le> a"
    by (auto simp: sorted_append)
  show ?case
  proof (cases "int t < a")
    case True
    show ?thesis
    proof (cases b)
      case 0
      with True show ?thesis by (simp add: batch_size_at_def)
    next
      case (Suc b')
      with Cons.prems(2) have "b' < length Ls" by simp
      from Cons.IH [OF srt this] True Suc show ?thesis
        by (simp add: batch_size_at_def)
    qed
  next
    case False
    with le have "\<forall>x \<in> set (a # Ls). \<not> int t < x" by auto
    then have "filter (\<lambda>L. int t < L) (a # Ls) = []"
      by (simp only: filter_empty_conv) 
    moreover from \<open>\<forall>x \<in> set (a # Ls). \<not> int t < x\<close> Cons.prems(2) have "\<not> int t < (a # Ls) ! b"
      using nth_mem by blast
    ultimately show ?thesis by (simp add: batch_size_at_def)
  qed
qed

lemma batch_size_at_antimono: "t \<le> t' \<Longrightarrow> batch_size_at Ls t' \<le> batch_size_at Ls t"
  by (induction Ls) (auto simp: batch_size_at_def)

lemma batch_sizes_sorted: "sorted (rev (map (batch_size_at Ls) [0..<n]))"
  by (simp add: sorted_rev_iff_nth_mono batch_size_at_antimono)

lemma split_steps_concat: "split_steps (map length ss) (concat ss) = ss"
  by (induction ss) simp_all

lemma shape3_eqI:
  assumes "shape3 B T D x" and "shape3 B T D' y"
    and "\<And>b t. b < B \<Longrightarrow> t < T \<Longrightarrow> x ! b ! t = y ! b ! t"
  shows "x = y"
proof (rule nth_equalityI)
  show "length x = length y" using assms(1,2) by (simp add: shape3_nth)
next
  fix b assume "b < length x"
  then have b: "b < B" using assms(1) by (simp add: shape3_nth)
  show "x ! b = y ! b"
  proof (rule nth_equalityI)
    show "length (x ! b) = length (y ! b)" 
      using b shape3_nth(2) [OF assms(1)] shape3_nth(2) [OF assms(2)] by simp
  next
    fix t assume "t < length (x ! b)"
    then have "t < T" using b shape3_nth(2) [OF assms(1)] by simp
    with b show "x ! b ! t = y ! b ! t" by (rule assms(3))
  qed
qed


lemma pack_padded_sequence_Inr:
  assumes "shape3 B T D r" and "0 < B" and "0 < D" and "length Ls = B" and "sorted (rev Ls)"
    and "\<forall>b < B. 1 \<le> Ls ! b" and "hd Ls = int T"
  shows "pack_padded_sequence r Ls =
     Inr \<lparr>data = concat (map (\<lambda>t. map (\<lambda>b. r ! b ! t) [0..<batch_size_at Ls t]) [0..<T]),
          batch_sizes = map (batch_size_at Ls) [0..<T]\<rparr>"
proof -
  from assms(2,4) have ne: "Ls \<noteq> []" by auto
  have T: "0 < T"
  proof -
    from assms(2,6) have "1 \<le> Ls ! 0" by blast
    with ne assms(7) show ?thesis by (simp add: hd_conv_nth)
  qed
  from numel_shape3 [OF assms(1)] assms(2,3) T have n: "numel r \<noteq> 0" by simp
  from assms(1) have lr: "length r = B" by (simp add: shape3_nth)
  have "0 < last Ls"
  proof -
    from assms(2) have "B - 1 < B" by simp
    with assms(6) have "1 \<le> Ls ! (B - 1)" by blast
    with ne assms(4) show ?thesis by (simp add: last_conv_nth)
  qed
  moreover have "length (hd r) = T"
  proof -
    from assms(2) lr have "hd r = r ! 0" by (cases r) auto
    with shape3_nth(2) [OF assms(1) assms(2)] show ?thesis by simp
  qed
  ultimately show ?thesis
    using n lr assms(4,5,7) by (simp add: pack_padded_sequence_def)
qed

text \<open>
  C4, as amended. For a dense array \<open>x\<close> of shape \<open>(B, T_max, D)\<close> with at least one row
  and one channel, non-increasing lengths that are all at least 1 and whose largest is
  \<open>T_max\<close>, and zeros beyond each row's length: reversing, packing, unpacking and
  reversing again returns exactly \<open>x\<close>.
\<close>

theorem pad_and_reverse_roundtrip:
  assumes "shape3 B T D x" and "0 < B" and "0 < D" and "length Ls = B" and "sorted (rev Ls)"
    and "\<forall>b < B. 1 \<le> Ls ! b" and "hd Ls = int T"
    and "\<forall>b < B. \<forall>t < T. Ls ! b \<le> int t \<longrightarrow> x ! b ! t = replicate D 0"
  shows "reverse_pack_unpack x Ls = Inr x"
proof -
  from assms(2,4) have ne: "Ls \<noteq> []" by auto
  have leT: "Ls ! b \<le> int T" if "b < B" for b
  proof -
    from assms(5) that assms(4) have "Ls ! b \<le> Ls ! 0"
      by (simp add: sorted_rev_iff_nth_mono)
    with ne assms(7) show ?thesis by (simp add: hd_conv_nth)
  qed
  have bounds: "\<forall>b < B. 0 \<le> Ls ! b \<and> Ls ! b \<le> int T"
    using leT assms(6) by fastforce
  have T: "0 < T"
  proof -
    from assms(2,6) have "1 \<le> Ls ! 0" by blast
    with ne assms(7) show ?thesis by (simp add: hd_conv_nth)
  qed
  from reverse_sequences_shape3 [OF assms(1,4) bounds] obtain r where
    r: "reverse_sequences x Ls = Inr r" and sr: "shape3 B T D r"
    and rn: "\<And>b t. b < B \<Longrightarrow> t < T \<Longrightarrow>
        r ! b ! t = (if int t < Ls ! b then x ! b ! (nat (Ls ! b) - 1 - t) else replicate D 0)"
    by blast
  let ?steps = "map (\<lambda>t. map (\<lambda>b. r ! b ! t) [0..<batch_size_at Ls t]) [0..<T]"
  let ?p = "\<lparr>data = concat ?steps, batch_sizes = map (batch_size_at Ls) [0..<T]\<rparr>"
  have p: "pack_padded_sequence r Ls = Inr ?p"
    by (rule pack_padded_sequence_Inr [OF sr assms(2,3,4,5,6,7)])
  have bs0: "batch_size_at Ls 0 = B"
  proof -
    have "\<forall>L \<in> set Ls. int 0 < L"
      using assms(4,6) by (fastforce simp: in_set_conv_nth)
    then have "filter (\<lambda>L. int 0 < L) Ls = Ls" by (simp only: filter_True)
    then show ?thesis using assms(4) by (simp only: batch_size_at_def)
  qed
  have bsle: "batch_size_at Ls t \<le> B" for t
    using assms(4) by (auto simp: batch_size_at_def)
  have lens: "map (batch_size_at Ls) [0..<T] = map length ?steps"
    by simp
  have upT: "[0..<T] = 0 # [1..<T]" using T by (simp add: upt_conv_Cons)
  have upB: "[0..<B] = 0 # [1..<B]" using assms(2) by (simp add: upt_conv_Cons)
  have hd_data: "\<exists>rest. concat ?steps = (r ! 0 ! 0) # rest"
    by (subst upT) (simp add: bs0 upB)
  have len_v: "length (r ! 0 ! 0) = D"
    using shape3_nth(3) [OF sr assms(2) T] .
  have padding: "(case concat ?steps of [] \<Rightarrow> [] | v # _ \<Rightarrow> map (\<lambda>_. 0::'a) v) = replicate D 0"
  proof -
    from hd_data obtain rest where "concat ?steps = (r ! 0 ! 0) # rest" by blast
    then show ?thesis using len_v by (simp add: map_replicate_const)
  qed
  let ?padded = "map (\<lambda>b. map (\<lambda>step. if b < length step then step ! b else replicate D 0) ?steps)
      [0..<B]"
  have u: "pad_packed_sequence ?p =
      Inr (?padded, map (\<lambda>b. int (length (filter (\<lambda>n. b < n) (map (batch_size_at Ls) [0..<T]))))
        [0..<B])"
  proof -
    have bsz: "batch_sizes ?p = B # map (batch_size_at Ls) [1..<T]"
      by (simp add: upT bs0)
    have sum: "sum_list (batch_sizes ?p) = length (data ?p)"
      by (simp add: length_concat comp_def)
    have srt: "sorted (rev (batch_sizes ?p))"
      using batch_sizes_sorted [of Ls T] by simp
    have split: "split_steps (batch_sizes ?p) (data ?p) = ?steps"
      using split_steps_concat [of ?steps] by (simp add: comp_def)
    have pd: "(case data ?p of [] \<Rightarrow> [] | v # _ \<Rightarrow> map (\<lambda>_. 0::'a) v) = replicate D 0"
      using padding by simp
    from bsz sum srt split pd show ?thesis
      by (simp add: pad_packed_sequence_def Let_def del: upt_Suc)
  qed
  have padded: "?padded = r"
  proof (rule shape3_eqI [where B = B and T = T and D = D and D' = D])
    show "shape3 B T D r" by (rule sr)
    have nth: "?padded ! b ! t = r ! b ! t" if "b < B" "t < T" for b t
    proof (cases "b < batch_size_at Ls t")
      case True
      with that show ?thesis by simp
    next
      case False
      with batch_size_at_less [OF assms(5), of b t] that assms(4) have "\<not> int t < Ls ! b"
        by simp
      with False rn [OF that] that show ?thesis by simp
    qed
    then show "\<And>b t. b < B \<Longrightarrow> t < T \<Longrightarrow> ?padded ! b ! t = r ! b ! t" .
    show "shape3 B T D ?padded"
    proof (rule shape3_I)
      show "length ?padded = B" by simp
      show "\<And>b. b < B \<Longrightarrow> length (?padded ! b) = T" by simp
      fix b t assume "b < B" "t < T"
      with nth [OF this] shape3_nth(3) [OF sr this] show "length (?padded ! b ! t) = D"
        by simp
    qed
  qed
  from reverse_sequences_shape3 [OF sr assms(4) bounds] obtain x' where
    x': "reverse_sequences r Ls = Inr x'" and sx': "shape3 B T D x'"
    and xn: "\<And>b t. b < B \<Longrightarrow> t < T \<Longrightarrow>
        x' ! b ! t = (if int t < Ls ! b then r ! b ! (nat (Ls ! b) - 1 - t) else replicate D 0)"
    by blast
  have "x' = x"
  proof (rule shape3_eqI [OF sx' assms(1)])
    fix b t assume bt: "b < B" "t < T"
    show "x' ! b ! t = x ! b ! t"
    proof (cases "int t < Ls ! b")
      case True
      let ?t' = "nat (Ls ! b) - 1 - t"
      from True leT [OF bt(1)] have t': "?t' < T" "int ?t' < Ls ! b"
        and undo: "nat (Ls ! b) - 1 - ?t' = t"
        by auto
      from xn [OF bt] True rn [OF bt(1) t'(1)] t'(2) undo show ?thesis by simp
    next
      case False
      with xn [OF bt] assms(8) bt show ?thesis by simp
    qed
  qed
  with x' u padded have "pad_and_reverse ?p Ls = Inr x"
    by (simp add: pad_and_reverse_def)
  with r p show ?thesis by (simp add: reverse_pack_unpack_def)
qed

theorem pad_and_reverse_roundtrip_witness:
  "shape3 2 2 1 [[[1], [2]], [[3], [0::int]]] \<and> length [2, 1::int] = 2 \<and>
   sorted (rev [2, 1::int]) \<and> hd [2, 1::int] = int 2 \<and>
   reverse_pack_unpack [[[1], [2]], [[3], [0::int]]] [2, 1] = Inr [[[1], [2]], [[3], [0]]]"
proof -
  have h1: "shape3 2 2 1 [[[1], [2]], [[3], [0::int]]]" by (simp add: shape3_def)
  have h4: "length [2, 1::int] = 2" by simp
  have h5: "sorted (rev [2, 1::int])" by simp
  have h6: "\<forall>b < 2. 1 \<le> [2, 1::int] ! b" by (simp add: less_Suc_eq numeral_2_eq_2)
  have h7: "hd [2, 1::int] = int 2" by simp
  have h8: "\<forall>b < 2. \<forall>t < 2. [2, 1::int] ! b \<le> int t \<longrightarrow>
      [[[1], [2]], [[3], [0::int]]] ! b ! t = replicate 1 0"
    by (simp add: less_Suc_eq numeral_2_eq_2)
  from pad_and_reverse_roundtrip [OF h1 _ _ h4 h5 h6 h7 h8] h1 h4 h5 h7 show ?thesis by simp
qed

text \<open>
  The property as stated fails outside these bounds: with a time axis longer than the
  longest length the unpacked tensor is shorter than \<open>x\<close>; with a length 0, with no row or
  with no channel, packing raises.
\<close>

theorem pad_and_reverse_roundtrip_counterexample:
  "reverse_pack_unpack [[[1], [0::int]]] [1] = Inr [[[1]]] \<and>
   reverse_pack_unpack [[[1]], [[0::int]]] [1, 0] = Inl RuntimeError \<and>
   reverse_pack_unpack ([] :: int list list list) [] = Inl RuntimeError \<and>
   reverse_pack_unpack [[[] :: int list]] [1] = Inl RuntimeError"
  by (simp add: reverse_pack_unpack_def reverse_row_def pack_padded_sequence_def numel_def
      batch_size_at_def pad_and_reverse_def pad_packed_sequence_def)

subsection \<open>Gathering by index\<close>

lemma np_take_Inr:
  "\<forall>i \<in> set idx. i < length arr \<Longrightarrow> np_take arr idx = Inr (map ((!) arr) idx)"
  unfolding np_take_def by (rule emap_Inr_map) simp

lemma np_take_eq_Inr:
  assumes "np_take arr idx = Inr ys"
  shows "ys = map ((!) arr) idx" and "\<forall>i \<in> set idx. i < length arr"
proof -
  from emap_eq_Inr [OF assms [unfolded np_take_def]]
  have len: "length ys = length idx"
    and nth: "\<And>k. k < length idx \<Longrightarrow>
      (if idx ! k < length arr then Inr (arr ! (idx ! k)) else Inl IndexError) = Inr (ys ! k)"
    by blast+
  have ok: "idx ! k < length arr \<and> ys ! k = arr ! (idx ! k)" if "k < length idx" for k
    using nth [OF that] by (auto split: if_splits)
  show "ys = map ((!) arr) idx"
    by (rule nth_equalityI) (simp_all add: len ok)
  show "\<forall>i \<in> set idx. i < length arr"
    using ok by (auto simp: in_set_conv_nth)
qed

lemma np_take_Inl:
  "\<exists>i \<in> set idx. length arr \<le> i \<Longrightarrow> np_take arr idx = Inl IndexError"
proof (induction idx)
  case Nil
  then show ?case by simp
next
  case (Cons i idx)
  show ?case
  proof (cases "i < length arr")
    case True
    with Cons.prems have "\<exists>i \<in> set idx. length arr \<le> i" by auto
    from Cons.IH [OF this] True show ?thesis by (simp add: np_take_def)
  next
    case False
    then show ?thesis by (simp add: np_take_def)
  qed
qed

lemma np_take_opt_eq_Inr:
  assumes "np_take_opt arr idx = Inr r"
  shows "r = map_option (\<lambda>a. map ((!) a) idx) arr"
    and "\<forall>a. arr = Some a \<longrightarrow> (\<forall>i \<in> set idx. i < length a)"
proof -
  show "r = map_option (\<lambda>a. map ((!) a) idx) arr"
    using assms np_take_eq_Inr(1)
    by (cases arr) (auto simp: np_take_opt_def ebind_eq_Inr)
  show "\<forall>a. arr = Some a \<longrightarrow> (\<forall>i \<in> set idx. i < length a)"
  proof (intro allI impI)
    fix a assume "arr = Some a"
    with assms obtain v where "np_take a idx = Inr v"
      by (auto simp: np_take_opt_def ebind_eq_Inr)
    then show "\<forall>i \<in> set idx. i < length a" by (rule np_take_eq_Inr(2))
  qed
qed

lemma np_take_opt_Inr:
  "\<forall>a. arr = Some a \<longrightarrow> (\<forall>i \<in> set idx. i < length a) \<Longrightarrow>
     np_take_opt arr idx = Inr (map_option (\<lambda>a. map ((!) a) idx) arr)"
  by (cases arr) (simp_all add: np_take_opt_def np_take_Inr)

lemma get_mini_batch_InrD:
  assumes "get_mini_batch srt idx sequences seq_lengths fm static y ymask ids use cuda = Inr mb"
  shows "\<exists>Ls gathered st' ids' r.
     np_take seq_lengths idx = Inr Ls \<and> Ls \<noteq> [] \<and>
     mb_sorted_seq_lengths mb = map ((!) Ls) (sorted_seq_length_indices srt Ls) \<and>
     np_take sequences (map ((!) idx) (sorted_seq_length_indices srt Ls)) = Inr gathered \<and>
     pad_sequence (map (\<lambda>x. slice_upto x (Max (set Ls))) gathered) = Inr (mb_sequence mb) \<and>
     static = Some st' \<and>
     np_take st' (map ((!) idx) (sorted_seq_length_indices srt Ls)) = Inr (mb_static mb) \<and>
     get_mini_batch_mask (mb_sequence mb) (mb_sorted_seq_lengths mb) = Inr (mb_mask mb) \<and>
     np_take_opt y (map ((!) idx) (sorted_seq_length_indices srt Ls)) = Inr (mb_y mb) \<and>
     np_take_opt ymask (map ((!) idx) (sorted_seq_length_indices srt Ls)) = Inr (mb_y_mask mb) \<and>
     reverse_with_mask (mb_sequence mb) (mb_sorted_seq_lengths mb) (Max (set Ls))
       (map ((!) idx) (sorted_seq_length_indices srt Ls)) fm use = Inr (mb_feature_mask mb, r) \<and>
     pack_padded_sequence r (mb_sorted_seq_lengths mb) = Inr (mb_reversed_packed mb) \<and>
     ids = Some ids' \<and>
     np_take ids' (map ((!) idx) (sorted_seq_length_indices srt Ls)) = Inr (mb_source_indices mb)"
  using assms unfolding get_mini_batch_def
  by (auto simp: ebind_eq_Inr Let_def split: if_splits option.splits prod.splits)

subsection \<open>The sort of get_mini_batch\<close>

lemma torch_sort_contract:
  "mset (Rep_torch_sort srt xs) = mset [0..<length xs]"
  "sorted (map ((!) xs) (Rep_torch_sort srt xs))"
  using Rep_torch_sort [of srt] by (simp_all add: ascending_argsort_def)

lemma sorted_seq_length_indices_mset:
  "mset (sorted_seq_length_indices srt Ls) = mset [0..<length Ls]"
  by (simp add: sorted_seq_length_indices_def torch_sort_contract(1))

lemma sorted_seq_length_indices_length [simp]:
  "length (sorted_seq_length_indices srt Ls) = length Ls"
  using mset_eq_length [OF sorted_seq_length_indices_mset [of srt Ls]] by simp

lemma sorted_seq_length_indices_set [simp]:
  "set (sorted_seq_length_indices srt Ls) = {0..<length Ls}"
  using mset_eq_setD [OF sorted_seq_length_indices_mset [of srt Ls]] by simp

lemma sorted_seq_length_indices_distinct: "distinct (sorted_seq_length_indices srt Ls)"
  using mset_eq_imp_distinct_iff [OF sorted_seq_length_indices_mset [of srt Ls]] by simp

lemma sorted_seq_length_indices_less:
  "p < length Ls \<Longrightarrow> sorted_seq_length_indices srt Ls ! p < length Ls"
  using nth_mem [of p "sorted_seq_length_indices srt Ls"] by simp

lemma sorted_seq_lengths_descending:
  "sorted (rev (map ((!) Ls) (sorted_seq_length_indices srt Ls)))"
  by (simp add: sorted_seq_length_indices_def rev_map torch_sort_contract(2))

lemma sorted_seq_lengths_mset:
  "mset (map ((!) Ls) (sorted_seq_length_indices srt Ls)) = mset Ls"
proof -
  have "mset (map ((!) Ls) (sorted_seq_length_indices srt Ls)) = mset (map ((!) Ls) [0..<length Ls])"
    using sorted_seq_length_indices_mset [of srt Ls] by (metis mset_map)
  then show ?thesis by (simp only: map_nth)
qed

text \<open>
  C1, as amended. Whatever order \<open>torch.sort\<close> gives to equal entries, the permutation
  that \<open>get_mini_batch\<close> applies is a permutation of the positions of the batch (the
  flipped result of the sort) that puts the gathered lengths in descending order, so
  \<open>sorted_seq_lengths\<close> is non-increasing, and the returned lengths and source indices are
  the gathered ones along that permutation. Nothing is said of the order of examples of
  equal length.
\<close>

theorem get_mini_batch_sort_order:
  assumes "get_mini_batch srt idx sequences seq_lengths fm static y ymask ids use cuda = Inr mb"
  shows "\<exists>perm ids'.
     perm = rev (Rep_torch_sort srt (map ((!) seq_lengths) idx)) \<and>
     mset perm = mset [0..<length idx] \<and>
     mb_sorted_seq_lengths mb = map (\<lambda>p. seq_lengths ! (idx ! p)) perm \<and>
     ids = Some ids' \<and> mb_source_indices mb = map (\<lambda>p. ids' ! (idx ! p)) perm \<and>
     sorted (rev (mb_sorted_seq_lengths mb)) \<and>
     (\<forall>p q. p \<le> q \<and> q < length idx \<longrightarrow>
        mb_sorted_seq_lengths mb ! q \<le> mb_sorted_seq_lengths mb ! p)"
proof -
  from get_mini_batch_InrD [OF assms] obtain Ls ids' where
    Ls: "np_take seq_lengths idx = Inr Ls"
    and sL: "mb_sorted_seq_lengths mb = map ((!) Ls) (sorted_seq_length_indices srt Ls)"
    and ids: "ids = Some ids'"
    and src: "np_take ids' (map ((!) idx) (sorted_seq_length_indices srt Ls)) =
      Inr (mb_source_indices mb)"
    by blast
  let ?perm = "sorted_seq_length_indices srt Ls"
  from np_take_eq_Inr [OF Ls] have Ls_eq: "Ls = map ((!) seq_lengths) idx" by simp
  then have len: "length Ls = length idx" by simp
  have 0: "?perm = rev (Rep_torch_sort srt (map ((!) seq_lengths) idx))"
    by (simp add: sorted_seq_length_indices_def Ls_eq)
  have 1: "mset ?perm = mset [0..<length idx]"
    using sorted_seq_length_indices_mset [of srt Ls] len by simp
  have 2: "mb_sorted_seq_lengths mb = map (\<lambda>p. seq_lengths ! (idx ! p)) ?perm"
    unfolding sL
  proof (rule map_cong [OF refl])
    fix i assume "i \<in> set ?perm"
    then have "i < length idx" using len by simp
    then show "Ls ! i = seq_lengths ! (idx ! i)" by (simp add: Ls_eq)
  qed
  have 3: "mb_source_indices mb = map (\<lambda>p. ids' ! (idx ! p)) ?perm"
    using np_take_eq_Inr(1) [OF src] by (simp add: comp_def)
  have 4: "sorted (rev (mb_sorted_seq_lengths mb))"
    unfolding sL by (rule sorted_seq_lengths_descending)
  have lsL: "length (mb_sorted_seq_lengths mb) = length idx" by (simp add: sL len)
  have 5: "\<forall>p q. p \<le> q \<and> q < length idx \<longrightarrow>
        mb_sorted_seq_lengths mb ! q \<le> mb_sorted_seq_lengths mb ! p"
    using 4 lsL by (simp add: sorted_rev_iff_nth_mono)
  from 0 1 2 3 4 5 ids show ?thesis by blast
qed

theorem get_mini_batch_sort_order_witness:
  "\<exists>mb. get_mini_batch stable_sort [0, 1, 2] [[[1]], [[2], [3]], [[4::int]]] [1, 2, 1] None
       (Some [[10], [20], [30]]) None None (Some [0, 1, 2]) False False = Inr mb \<and>
     mb_sorted_seq_lengths mb = [2, 1, 1] \<and> mb_source_indices mb = [1, 2, 0] \<and>
     (\<exists>perm ids'.
       perm = rev (Rep_torch_sort stable_sort (map ((!) [1, 2, 1]) [0, 1, 2])) \<and>
       mset perm = mset [0..<length [0, 1, 2::nat]] \<and>
       mb_sorted_seq_lengths mb = map (\<lambda>p. [1, 2, 1] ! ([0, 1, 2] ! p)) perm \<and>
       Some [0, 1, 2] = Some ids' \<and>
       mb_source_indices mb = map (\<lambda>p. ids' ! ([0, 1, 2] ! p)) perm \<and>
       sorted (rev (mb_sorted_seq_lengths mb)) \<and>
       (\<forall>p q. p \<le> q \<and> q < length [0, 1, 2::nat] \<longrightarrow>
          mb_sorted_seq_lengths mb ! q \<le> mb_sorted_seq_lengths mb ! p))"
proof -
  let ?mb = "\<lparr>mb_static = [[20], [30], [10::int]],
        mb_sequence = [[[2], [3]], [[4], [0]], [[1], [0]]],
        mb_reversed_packed = \<lparr>data = [[3], [4], [1], [2]], batch_sizes = [3, 1]\<rparr>,
        mb_mask = [[1, 1], [1, 0], [1, 0]], mb_sorted_seq_lengths = [2, 1, 1],
        mb_feature_mask = None, mb_y = None, mb_y_mask = None,
        mb_source_indices = [1, 2, 0]\<rparr>"
  have h: "get_mini_batch stable_sort [0, 1, 2] [[[1]], [[2], [3]], [[4::int]]] [1, 2, 1] None
       (Some [[10], [20], [30]]) None None (Some [0, 1, 2]) False False = Inr ?mb"
    by code_simp
  have c: "mb_sorted_seq_lengths ?mb = [2, 1, 1]" "mb_source_indices ?mb = [1, 2, 0]"
    by simp_all
  note t = get_mini_batch_sort_order [OF h]
  show ?thesis
    by (rule exI [of _ ?mb]) (intro conjI h c t)
qed

text \<open>
  As stated the property fails: when the sort leaves two equal lengths in their order,
  as the library's sort does on an input this short, the flip swaps them, and the two
  examples leave \<open>get_mini_batch\<close> in the reverse of their order in
  \<open>mini_batch_indices\<close>.
\<close>

theorem get_mini_batch_sort_order_counterexample:
  "get_mini_batch stable_sort [0, 1] [[[1]], [[2::int]]] [1, 1] None (Some [[10], [20]]) None None
     (Some [0, 1]) False False =
   Inr \<lparr>mb_static = [[20], [10]], mb_sequence = [[[2]], [[1]]],
        mb_reversed_packed = \<lparr>data = [[2], [1]], batch_sizes = [2]\<rparr>,
        mb_mask = [[1], [1]], mb_sorted_seq_lengths = [1, 1],
        mb_feature_mask = None, mb_y = None, mb_y_mask = None,
        mb_source_indices = [1, 0]\<rparr>"
  by code_simp

subsection \<open>The filter of batchify\<close>

lemma keep_index_of_set:
  "i \<in> set (keep_index_of Ls m) \<longleftrightarrow> i < length Ls \<and> 0 < Ls ! i \<and> Ls ! i \<le> m"
  by (auto simp: keep_index_of_def)

lemma keep_index_of_sorted: "sorted_wrt (<) (keep_index_of Ls m)"
  by (simp add: keep_index_of_def sorted_wrt_filter)

lemma keep_index_of_distinct: "distinct (keep_index_of Ls m)"
  by (simp add: keep_index_of_def)

lemma batchify_filter_Inr:
  assumes "length static = length seq_lengths" and "length sequences = length seq_lengths"
    and "\<forall>m. fm = Some m \<longrightarrow> length m = length seq_lengths"
    and "\<forall>ys. y = Some ys \<longrightarrow> length ys = length seq_lengths"
    and "\<forall>ys. ymask = Some ys \<longrightarrow> length ys = length seq_lengths"
  shows "batchify_filter sequences seq_lengths fm static y ymask max_len =
     Inr \<lparr>keep_index = keep_index_of seq_lengths max_len,
          kept_static = map ((!) static) (keep_index_of seq_lengths max_len),
          kept_sequences = map ((!) sequences) (keep_index_of seq_lengths max_len),
          kept_seq_lengths = map ((!) seq_lengths) (keep_index_of seq_lengths max_len),
          kept_feature_mask = map_option (\<lambda>a. map ((!) a) (keep_index_of seq_lengths max_len)) fm,
          kept_y = map_option (\<lambda>a. map ((!) a) (keep_index_of seq_lengths max_len)) y,
          kept_y_mask = map_option (\<lambda>a. map ((!) a) (keep_index_of seq_lengths max_len)) ymask\<rparr>"
proof -
  let ?keep = "keep_index_of seq_lengths max_len"
  have r: "\<forall>i \<in> set ?keep. i < length seq_lengths"
    by (simp add: keep_index_of_set)
  have 1: "np_take static ?keep = Inr (map ((!) static) ?keep)"
    using r assms(1) by (intro np_take_Inr) simp
  have 2: "np_take sequences ?keep = Inr (map ((!) sequences) ?keep)"
    using r assms(2) by (intro np_take_Inr) simp
  have 3: "np_take seq_lengths ?keep = Inr (map ((!) seq_lengths) ?keep)"
    using r by (intro np_take_Inr) simp
  have 4: "np_take_opt fm ?keep = Inr (map_option (\<lambda>a. map ((!) a) ?keep) fm)"
    using r assms(3) by (intro np_take_opt_Inr) simp
  have 5: "np_take_opt y ?keep = Inr (map_option (\<lambda>a. map ((!) a) ?keep) y)"
    using r assms(4) by (intro np_take_opt_Inr) simp
  have 6: "np_take_opt ymask ?keep = Inr (map_option (\<lambda>a. map ((!) a) ?keep) ymask)"
    using r assms(5) by (intro np_take_opt_Inr) simp
  show ?thesis
    by (simp add: batchify_filter_def Let_def 1 2 3 4 5 6)
qed

text \<open>
  C6. On a dataset whose arrays have one entry per example, the filter of \<open>batchify\<close>
  keeps example \<open>i\<close> exactly when \<open>0 < seq_lengths[i] \<le> max_len\<close>, keeps the kept examples
  in their original order, and takes the same entries out of \<open>sequences\<close>,
  \<open>seq_lengths\<close>, \<open>static\<close> and out of the feature mask, \<open>y\<close> and \<open>y_mask\<close> when present.
\<close>

theorem batchify_filter_correct:
  assumes "length static = length seq_lengths" and "length sequences = length seq_lengths"
    and "\<forall>m. fm = Some m \<longrightarrow> length m = length seq_lengths"
    and "\<forall>ys. y = Some ys \<longrightarrow> length ys = length seq_lengths"
    and "\<forall>ys. ymask = Some ys \<longrightarrow> length ys = length seq_lengths"
  shows "\<exists>k. batchify_filter sequences seq_lengths fm static y ymask max_len = Inr k \<and>
     (\<forall>i. i \<in> set (keep_index k) \<longleftrightarrow>
        i < length seq_lengths \<and> 0 < seq_lengths ! i \<and> seq_lengths ! i \<le> max_len) \<and>
     sorted_wrt (<) (keep_index k) \<and>
     kept_sequences k = map ((!) sequences) (keep_index k) \<and>
     kept_seq_lengths k = map ((!) seq_lengths) (keep_index k) \<and>
     kept_static k = map ((!) static) (keep_index k) \<and>
     kept_feature_mask k = map_option (\<lambda>a. map ((!) a) (keep_index k)) fm \<and>
     kept_y k = map_option (\<lambda>a. map ((!) a) (keep_index k)) y \<and>
     kept_y_mask k = map_option (\<lambda>a. map ((!) a) (keep_index k)) ymask"
  using batchify_filter_Inr [OF assms, of max_len]
  by (simp add: keep_index_of_set keep_index_of_sorted)

theorem batchify_filter_correct_witness:
  "batchify_filter [[], [[1], [2], [3], [4], [5]], [[6]], [[7], [8::int]]] [0, 5, 1000, 2] None
      [[10], [11], [12], [13]] (Some [0, 1, 0, 1]) None 100 =
     Inr \<lparr>keep_index = [1, 3], kept_static = [[11], [13]],
          kept_sequences = [[[1], [2], [3], [4], [5]], [[7], [8]]],
          kept_seq_lengths = [5, 2], kept_feature_mask = None, kept_y = Some [1, 1],
          kept_y_mask = None\<rparr> \<and>
   (\<exists>k. batchify_filter [[], [[1], [2], [3], [4], [5]], [[6]], [[7], [8::int]]] [0, 5, 1000, 2]
      None [[10], [11], [12], [13]] (Some [0, 1, 0, 1]) None 100 = Inr k \<and>
     (\<forall>i. i \<in> set (keep_index k) \<longleftrightarrow>
        i < length [0, 5, 1000, 2::int] \<and> 0 < [0, 5, 1000, 2::int] ! i \<and>
        [0, 5, 1000, 2::int] ! i \<le> 100) \<and>
     sorted_wrt (<) (keep_index k) \<and>
     kept_sequences k = map ((!) [[], [[1], [2], [3], [4], [5]], [[6]], [[7], [8]]]) (keep_index k) \<and>
     kept_seq_lengths k = map ((!) [0, 5, 1000, 2]) (keep_index k) \<and>
     kept_static k = map ((!) [[10], [11], [12], [13]]) (keep_index k) \<and>
     kept_feature_mask k = map_option (\<lambda>a. map ((!) a) (keep_index k)) None \<and>
     kept_y k = map_option (\<lambda>a. map ((!) a) (keep_index k)) (Some [0, 1, 0, 1]) \<and>
     kept_y_mask k = map_option (\<lambda>a. map ((!) a) (keep_index k)) None)"
proof (rule conjI)
  show "batchify_filter [[], [[1], [2], [3], [4], [5]], [[6]], [[7], [8::int]]] [0, 5, 1000, 2] None
      [[10], [11], [12], [13]] (Some [0, 1, 0, 1]) None 100 =
     Inr \<lparr>keep_index = [1, 3], kept_static = [[11], [13]],
          kept_sequences = [[[1], [2], [3], [4], [5]], [[7], [8]]],
          kept_seq_lengths = [5, 2], kept_feature_mask = None, kept_y = Some [1, 1],
          kept_y_mask = None\<rparr>"
    by code_simp
  show "\<exists>k. batchify_filter [[], [[1], [2], [3], [4], [5]], [[6]], [[7], [8::int]]] [0, 5, 1000, 2]
      None [[10], [11], [12], [13]] (Some [0, 1, 0, 1]) None 100 = Inr k \<and>
     (\<forall>i. i \<in> set (keep_index k) \<longleftrightarrow>
        i < length [0, 5, 1000, 2::int] \<and> 0 < [0, 5, 1000, 2::int] ! i \<and>
        [0, 5, 1000, 2::int] ! i \<le> 100) \<and>
     sorted_wrt (<) (keep_index k) \<and>
     kept_sequences k = map ((!) [[], [[1], [2], [3], [4], [5]], [[6]], [[7], [8]]]) (keep_index k) \<and>
     kept_seq_lengths k = map ((!) [0, 5, 1000, 2]) (keep_index k) \<and>
     kept_static k = map ((!) [[10], [11], [12], [13]]) (keep_index k) \<and>
     kept_feature_mask k = map_option (\<lambda>a. map ((!) a) (keep_index k)) None \<and>
     kept_y k = map_option (\<lambda>a. map ((!) a) (keep_index k)) (Some [0, 1, 0, 1]) \<and>
     kept_y_mask k = map_option (\<lambda>a. map ((!) a) (keep_index k)) None"
    by (rule batchify_filter_correct) simp_all
qed

subsection \<open>Inversion of the steps of get_mini_batch\<close>

lemma reverse_sequences_InrD:
  "reverse_sequences x Ls = Inr r \<Longrightarrow>
     length x \<le> length Ls \<and> (\<forall>b < length x. 0 \<le> Ls ! b \<and> Ls ! b \<le> int (length (x ! b)))"
proof (induction x Ls arbitrary: r rule: reverse_sequences.induct)
  case (1 seq_lengths)
  then show ?case by simp
next
  case (2 row rows)
  then show ?case by simp
next
  case (3 row rows T seq_lengths)
  from "3.prems" obtain r0 rs where r0: "reverse_row row T = Inr r0"
    and rs: "reverse_sequences rows seq_lengths = Inr rs"
    by (auto simp: ebind_eq_Inr)
  from r0 have T: "0 \<le> T \<and> T \<le> int (length row)"
    by (simp add: reverse_row_def split: if_splits)
  from "3.IH" [OF rs] T show ?case
    by (auto simp: nth_Cons split: nat.splits)
qed

lemma map2_append_lengths:
  "map length a = map length b \<Longrightarrow> map length (map2 (map2 (@)) a b) = map length a"
proof (induction a arbitrary: b)
  case Nil
  then show ?case by simp
next
  case (Cons x a)
  then obtain y b' where "b = y # b'" by (cases b) auto
  with Cons show ?case by simp
qed

lemma cat_channels_eq_Inr:
  "cat_channels a b = Inr c \<longleftrightarrow> map length a = map length b \<and> c = map2 (map2 (@)) a b"
  by (auto simp: cat_channels_def)

lemma reverse_with_mask_InrD:
  assumes "reverse_with_mask mbatch sL T sidx fm use = Inr (fmd, r)"
  shows "\<exists>X. reverse_sequences X sL = Inr r \<and> map length X = map length mbatch \<and>
     (case fm of
        None \<Rightarrow> fmd = None \<and> X = mbatch
      | Some m \<Rightarrow>
          (\<exists>g d. np_take m sidx = Inr g \<and>
             pad_sequence (map (\<lambda>x. slice_upto x T) g) = Inr d \<and> fmd = Some d \<and>
             (if use then map length mbatch = map length d \<and> X = map2 (map2 (@)) mbatch d
              else X = mbatch)))"
proof (cases fm)
  case None
  with assms show ?thesis
    by (auto simp: reverse_with_mask_def ebind_eq_Inr)
next
  case (Some m)
  show ?thesis
  proof (cases use)
    case True
    with Some assms obtain g d c where g: "np_take m sidx = Inr g"
      and d: "pad_sequence (map (\<lambda>x. slice_upto x T) g) = Inr d"
      and c: "cat_channels mbatch d = Inr c" and r: "reverse_sequences c sL = Inr r"
      and fmd: "fmd = Some d"
      by (auto simp: reverse_with_mask_def ebind_eq_Inr)
    from c have eq: "map length mbatch = map length d" and cv: "c = map2 (map2 (@)) mbatch d"
      by (simp_all add: cat_channels_eq_Inr)
    from map2_append_lengths [OF eq] cv have "map length c = map length mbatch" by simp
    with g d r fmd eq cv Some True show ?thesis by auto
  next
    case False
    with Some assms show ?thesis
      by (auto simp: reverse_with_mask_def ebind_eq_Inr)
  qed
qed

lemma pad_sequence_Inr:
  assumes "seqs \<noteq> []" and "\<forall>s \<in> set seqs. \<forall>v \<in> set s. length v = D"
  shows "pad_sequence seqs =
     Inr (map (\<lambda>s. s @ replicate (Max (set (map length seqs)) - length s) (replicate D 0)) seqs)"
proof -
  let ?M = "Max (set (map length seqs))"
  let ?D = "case concat seqs of [] \<Rightarrow> 0 | v # _ \<Rightarrow> length v"
  have one: "ebind (emap (broadcast_row ?D) s)
        (\<lambda>x'. Inr (x' @ replicate (?M - length s) (replicate ?D 0))) =
      Inr (s @ replicate (?M - length s) (replicate D 0))" if s: "s \<in> set seqs" for s
  proof (cases "concat seqs")
    case Nil
    with s have "s = []" by auto
    moreover have "?M = 0"
    proof -
      from Nil have "\<forall>s \<in> set seqs. length s = 0" by auto
      then have "set (map length seqs) = {0}" using assms(1) by (cases seqs) auto
      then show ?thesis by simp
    qed
    ultimately show ?thesis by simp
  next
    case (Cons v rest)
    then have "v \<in> set (concat seqs)" by simp
    then obtain s' where "s' \<in> set seqs" "v \<in> set s'" by auto
    with assms(2) have "length v = D" by blast
    with Cons have D: "?D = D" by simp
    have "emap (broadcast_row D) s = Inr (map (\<lambda>v. v) s)"
      using assms(2) s by (intro emap_Inr_map) (simp add: broadcast_row_def)
    then show ?thesis by (simp add: D)
  qed
  have "emap (\<lambda>x. ebind (emap (broadcast_row ?D) x)
        (\<lambda>x'. Inr (x' @ replicate (?M - length x) (replicate ?D 0)))) seqs =
      Inr (map (\<lambda>s. s @ replicate (?M - length s) (replicate D 0)) seqs)"
    by (rule emap_Inr_map) (rule one)
  with assms(1) show ?thesis by (simp add: pad_sequence_def Let_def)
qed

subsection \<open>Truncating and padding\<close>

lemma mset_map_nth_perm:
  assumes "mset perm = mset [0..<length xs]"
  shows "mset (map ((!) xs) perm) = mset xs"
proof -
  have "mset (map ((!) xs) perm) = mset (map ((!) xs) [0..<length xs])"
    using assms by (metis mset_map)
  then show ?thesis by (simp only: map_nth)
qed

lemma sorted_mini_batch_indices_of_mset:
  "mset (sorted_mini_batch_indices_of srt idx seq_lengths) = mset idx"
  unfolding sorted_mini_batch_indices_of_def
  by (rule mset_map_nth_perm) (simp add: sorted_seq_length_indices_mset)

lemma sorted_mini_batch_indices_of_set [simp]:
  "set (sorted_mini_batch_indices_of srt idx seq_lengths) = set idx"
  using sorted_mini_batch_indices_of_mset [of srt idx seq_lengths] by (rule mset_eq_setD)

lemma sorted_mini_batch_indices_of_length [simp]:
  "length (sorted_mini_batch_indices_of srt idx seq_lengths) = length idx"
  by (simp add: sorted_mini_batch_indices_of_def)

lemma sorted_lengths_via_indices:
  "map ((!) (map ((!) seq_lengths) idx)) (sorted_seq_length_indices srt (map ((!) seq_lengths) idx)) =
     map ((!) seq_lengths) (sorted_mini_batch_indices_of srt idx seq_lengths)"
  unfolding sorted_mini_batch_indices_of_def map_map
proof (rule map_cong [OF refl])
  fix p assume "p \<in> set (sorted_seq_length_indices srt (map ((!) seq_lengths) idx))"
  then have "p < length idx" by simp
  then show "map ((!) seq_lengths) idx ! p = ((!) seq_lengths \<circ> (!) idx) p" by simp
qed

lemma trunc_pad_length [simp]: "length (trunc_pad T D x) = T"
  by (simp add: trunc_pad_def)

lemma pad_sequence_trunc_pad:
  assumes "seqs \<noteq> []" and "\<forall>s \<in> set seqs. \<forall>v \<in> set s. length v = D" and "0 \<le> Tmax"
    and "Max (set (map (\<lambda>s. min (length s) (nat Tmax)) seqs)) = nat Tmax"
  shows "pad_sequence (map (\<lambda>x. slice_upto x Tmax) seqs) = Inr (map (trunc_pad (nat Tmax) D) seqs)"
proof -
  let ?T = "nat Tmax"
  let ?tr = "map (\<lambda>x. slice_upto x Tmax) seqs"
  have tr: "?tr = map (take ?T) seqs"
    using assms(3) by (simp add: slice_upto_def)
  have ne: "?tr \<noteq> []" using assms(1) by simp
  have w: "\<forall>s \<in> set ?tr. \<forall>v \<in> set s. length v = D"
    unfolding tr using assms(2) by (auto dest: in_set_takeD)
  have M: "Max (set (map length ?tr)) = ?T"
    unfolding tr using assms(4) by (simp add: comp_def)
  have eq: "map (\<lambda>s. s @ replicate (?T - length s) (replicate D 0)) (map (take ?T) seqs) =
      map (trunc_pad ?T D) seqs"
    by (simp add: trunc_pad_def comp_def min_def)
  have "pad_sequence ?tr =
      Inr (map (\<lambda>s. s @ replicate (?T - length s) (replicate D 0)) ?tr)"
    using pad_sequence_Inr [OF ne w] by (simp only: M)
  then have "pad_sequence ?tr =
      Inr (map (\<lambda>s. s @ replicate (?T - length s) (replicate D 0)) (map (take ?T) seqs))"
    by (simp only: tr)
  then show ?thesis by (simp only: eq)
qed

lemma pad_sequence_row_length:
  assumes "pad_sequence seqs = Inr out" and "\<forall>s \<in> set seqs. \<forall>v \<in> set s. length v = D"
    and "seqs \<noteq> []" and "b < length seqs"
  shows "length (out ! b) = Max (set (map length seqs))"
proof -
  from pad_sequence_Inr [OF assms(3,2)] assms(1) have
    "out = map (\<lambda>s. s @ replicate (Max (set (map length seqs)) - length s) (replicate D 0)) seqs"
    by simp
  moreover have "length (seqs ! b) \<le> Max (set (map length seqs))"
    using assms(4) by (intro Max_ge) simp_all
  ultimately show ?thesis using assms(4) by simp
qed

subsection \<open>The dense arrays of a mini-batch\<close>

lemma in_set_slice_uptoD: "v \<in> set (slice_upto x T) \<Longrightarrow> v \<in> set x"
  by (auto simp: slice_upto_def dest: in_set_takeD split: if_splits)

lemma get_mini_batch_dense:
  assumes ok: "get_mini_batch srt idx sequences seq_lengths fm static y ymask ids use cuda = Inr mb"
    and w: "\<forall>s \<in> set sequences. \<forall>v \<in> set s. length v = D"
    and wm: "\<forall>m. fm = Some m \<longrightarrow> (\<forall>s \<in> set m. \<forall>v \<in> set s. length v = Dm) \<and>
        (\<forall>i \<in> set idx. i < length m \<longrightarrow> length (m ! i) = length (sequences ! i))"
  shows "\<exists>st ids'. static = Some st \<and> ids = Some ids' \<and> idx \<noteq> [] \<and>
     (\<forall>i \<in> set idx. i < length seq_lengths \<and> i < length sequences \<and> i < length st \<and>
        i < length ids') \<and>
     0 \<le> T_max_of idx seq_lengths \<and>
     mb_sorted_seq_lengths mb = map ((!) seq_lengths) (sorted_mini_batch_indices_of srt idx seq_lengths) \<and>
     mb_sequence mb =
       map (\<lambda>i. trunc_pad (nat (T_max_of idx seq_lengths)) D (sequences ! i))
         (sorted_mini_batch_indices_of srt idx seq_lengths) \<and>
     mb_static mb = map ((!) st) (sorted_mini_batch_indices_of srt idx seq_lengths) \<and>
     mb_source_indices mb = map ((!) ids') (sorted_mini_batch_indices_of srt idx seq_lengths) \<and>
     mb_y mb = map_option (\<lambda>a. map ((!) a) (sorted_mini_batch_indices_of srt idx seq_lengths)) y \<and>
     mb_y_mask mb =
       map_option (\<lambda>a. map ((!) a) (sorted_mini_batch_indices_of srt idx seq_lengths)) ymask \<and>
     mb_feature_mask mb =
       map_option (\<lambda>m. map (\<lambda>i. trunc_pad (nat (T_max_of idx seq_lengths)) Dm (m ! i))
         (sorted_mini_batch_indices_of srt idx seq_lengths)) fm"
proof -
  let ?sidx = "sorted_mini_batch_indices_of srt idx seq_lengths"
  let ?Tmax = "T_max_of idx seq_lengths"
  let ?T = "nat ?Tmax"
  from get_mini_batch_InrD [OF ok] obtain Ls gathered st ids' r where
    Ls: "np_take seq_lengths idx = Inr Ls" and ne: "Ls \<noteq> []"
    and sL0: "mb_sorted_seq_lengths mb = map ((!) Ls) (sorted_seq_length_indices srt Ls)"
    and g0: "np_take sequences (map ((!) idx) (sorted_seq_length_indices srt Ls)) = Inr gathered"
    and pad0: "pad_sequence (map (\<lambda>x. slice_upto x (Max (set Ls))) gathered) = Inr (mb_sequence mb)"
    and st: "static = Some st"
    and st0: "np_take st (map ((!) idx) (sorted_seq_length_indices srt Ls)) = Inr (mb_static mb)"
    and y0: "np_take_opt y (map ((!) idx) (sorted_seq_length_indices srt Ls)) = Inr (mb_y mb)"
    and ym0: "np_take_opt ymask (map ((!) idx) (sorted_seq_length_indices srt Ls)) = Inr (mb_y_mask mb)"
    and rw0: "reverse_with_mask (mb_sequence mb) (mb_sorted_seq_lengths mb) (Max (set Ls))
       (map ((!) idx) (sorted_seq_length_indices srt Ls)) fm use = Inr (mb_feature_mask mb, r)"
    and ids: "ids = Some ids'"
    and src0: "np_take ids' (map ((!) idx) (sorted_seq_length_indices srt Ls)) = Inr (mb_source_indices mb)"
    by blast
  from np_take_eq_Inr [OF Ls] have Ls_eq: "Ls = map ((!) seq_lengths) idx"
    and r_len: "\<forall>i \<in> set idx. i < length seq_lengths" by simp_all
  have sidx: "map ((!) idx) (sorted_seq_length_indices srt Ls) = ?sidx"
    by (simp add: sorted_mini_batch_indices_of_def Ls_eq)
  have Tmax: "Max (set Ls) = ?Tmax" by (simp add: T_max_of_def Ls_eq)
  from ne Ls_eq have idx_ne: "idx \<noteq> []" by auto
  note g = g0 [unfolded sidx] and pad = pad0 [unfolded Tmax] and st1 = st0 [unfolded sidx]
    and y1 = y0 [unfolded sidx] and ym1 = ym0 [unfolded sidx] and src = src0 [unfolded sidx]
    and rw = rw0 [unfolded sidx Tmax]
  have sL: "mb_sorted_seq_lengths mb = map ((!) seq_lengths) ?sidx"
    unfolding sL0 Ls_eq by (rule sorted_lengths_via_indices)
  from np_take_eq_Inr [OF g] have gathered: "gathered = map ((!) sequences) ?sidx"
    and r_seq: "\<forall>i \<in> set idx. i < length sequences" by simp_all
  from np_take_eq_Inr [OF st1] have static: "mb_static mb = map ((!) st) ?sidx"
    and r_st: "\<forall>i \<in> set idx. i < length st" by simp_all
  from np_take_eq_Inr [OF src] have source: "mb_source_indices mb = map ((!) ids') ?sidx"
    and r_ids: "\<forall>i \<in> set idx. i < length ids'" by simp_all
  from np_take_opt_eq_Inr(1) [OF y1] have yv: "mb_y mb = map_option (\<lambda>a. map ((!) a) ?sidx) y" .
  from np_take_opt_eq_Inr(1) [OF ym1]
  have ymv: "mb_y_mask mb = map_option (\<lambda>a. map ((!) a) ?sidx) ymask" .
  have g_len: "length gathered = length idx" by (simp add: gathered)
  with idx_ne have g_ne: "gathered \<noteq> []" by auto
  have g_w: "\<forall>s \<in> set gathered. \<forall>v \<in> set s. length v = D"
    using w r_seq by (auto simp: gathered)
  let ?tr = "map (\<lambda>x. slice_upto x ?Tmax) gathered"
  have tr_w: "\<forall>s \<in> set ?tr. \<forall>v \<in> set s. length v = D"
    using g_w by (auto dest: in_set_slice_uptoD)
  have tr_ne: "?tr \<noteq> []" using g_ne by simp
  let ?M = "Max (set (map length ?tr))"
  have row_len: "length (mb_sequence mb ! b) = ?M" if "b < length idx" for b
    using pad_sequence_row_length [OF pad tr_w tr_ne, of b] that g_len by simp
  have mb_len: "length (mb_sequence mb) = length idx"
    using pad_sequence_Inr [OF tr_ne tr_w] pad g_len by auto
  from reverse_with_mask_InrD [OF rw] obtain X where
    X: "reverse_sequences X (mb_sorted_seq_lengths mb) = Inr r"
    and Xl: "map length X = map length (mb_sequence mb)"
    and Xc: "case fm of None \<Rightarrow> mb_feature_mask mb = None \<and> X = mb_sequence mb
      | Some m \<Rightarrow> (\<exists>g d. np_take m ?sidx = Inr g \<and>
          pad_sequence (map (\<lambda>x. slice_upto x ?Tmax) g) = Inr d \<and> mb_feature_mask mb = Some d \<and>
          (if use then map length (mb_sequence mb) = map length d \<and>
             X = map2 (map2 (@)) (mb_sequence mb) d
           else X = mb_sequence mb))"
    by blast
  from Xl have X_len: "length X = length idx"
    using mb_len by (metis length_map)
  have X_row: "length (X ! b) = ?M" if "b < length idx" for b
  proof -
    from that X_len mb_len have "length (X ! b) = map length X ! b"
      "map length (mb_sequence mb) ! b = length (mb_sequence mb ! b)" by simp_all
    with Xl row_len [OF that] show ?thesis by simp
  qed
  from reverse_sequences_InrD [OF X] X_len X_row have
    bound: "\<And>b. b < length idx \<Longrightarrow>
      0 \<le> mb_sorted_seq_lengths mb ! b \<and> mb_sorted_seq_lengths mb ! b \<le> int ?M"
    by simp
  have "?Tmax \<in> set (mb_sorted_seq_lengths mb)"
  proof -
    have "set (mb_sorted_seq_lengths mb) = set Ls"
      unfolding sL0 using sorted_seq_lengths_mset [of Ls] by (rule mset_eq_setD)
    moreover from ne have "Max (set Ls) \<in> set Ls" by (intro Max_in) simp_all
    ultimately show ?thesis by (simp add: Tmax)
  qed
  then obtain b0 where "b0 < length (mb_sorted_seq_lengths mb)"
    and b0v: "mb_sorted_seq_lengths mb ! b0 = ?Tmax"
    unfolding in_set_conv_nth by blast
  then have b0: "b0 < length idx" "mb_sorted_seq_lengths mb ! b0 = ?Tmax"
    by (simp_all add: sL)
  from bound [OF b0(1)] b0(2) have T0: "0 \<le> ?Tmax" and TM: "?Tmax \<le> int ?M" by simp_all
  have tr_take: "map length ?tr = map (\<lambda>s. min (length s) ?T) gathered"
    using T0 by (simp add: slice_upto_def)
  have "?M \<le> ?T"
    unfolding tr_take using g_ne by (subst Max_le_iff) auto
  with TM have M: "?M = ?T" by linarith
  have Mg: "Max (set (map (\<lambda>s. min (length s) ?T) gathered)) = ?T"
    using M by (simp only: tr_take)
  from pad_sequence_trunc_pad [OF g_ne g_w T0 Mg] pad
  have seqv: "mb_sequence mb = map (\<lambda>i. trunc_pad ?T D (sequences ! i)) ?sidx"
    by (simp add: gathered comp_def)
  have fmv: "mb_feature_mask mb = map_option (\<lambda>m. map (\<lambda>i. trunc_pad ?T Dm (m ! i)) ?sidx) fm"
  proof (cases fm)
    case None
    with Xc show ?thesis by simp
  next
    case (Some m)
    with Xc obtain gm d where gm: "np_take m ?sidx = Inr gm"
      and d: "pad_sequence (map (\<lambda>x. slice_upto x ?Tmax) gm) = Inr d"
      and fmd: "mb_feature_mask mb = Some d"
      by auto
    from np_take_eq_Inr [OF gm] have gmv: "gm = map ((!) m) ?sidx"
      and r_m: "\<forall>i \<in> set idx. i < length m" by simp_all
    from wm Some have m_w: "\<forall>s \<in> set m. \<forall>v \<in> set s. length v = Dm"
      and m_l: "\<forall>i \<in> set idx. i < length m \<longrightarrow> length (m ! i) = length (sequences ! i)"
      by simp_all
    have "length gm = length idx" by (simp add: gmv)
    with idx_ne have gm_ne: "gm \<noteq> []" by auto
    have gm_w: "\<forall>s \<in> set gm. \<forall>v \<in> set s. length v = Dm"
      using m_w r_m by (auto simp: gmv)
    have "map (\<lambda>s. min (length s) ?T) gm = map (\<lambda>s. min (length s) ?T) gathered"
      using m_l r_m by (simp add: gmv gathered)
    with Mg have "Max (set (map (\<lambda>s. min (length s) ?T) gm)) = ?T" by simp
    from pad_sequence_trunc_pad [OF gm_ne gm_w T0 this] d
    have "d = map (\<lambda>i. trunc_pad ?T Dm (m ! i)) ?sidx"
      by (simp add: gmv comp_def)
    with fmd Some show ?thesis by simp
  qed
  from st ids idx_ne r_len r_seq r_st r_ids T0 sL seqv static source yv ymv fmv
  show ?thesis by blast
qed

subsection \<open>Rows of a mini-batch\<close>



lemma batchify_filter_InrD:
  assumes "batchify_filter sequences seq_lengths fm static y ymask max_len = Inr k"
  shows "keep_index k = keep_index_of seq_lengths max_len"
    and "kept_static k = map ((!) static) (keep_index k)"
    and "kept_sequences k = map ((!) sequences) (keep_index k)"
    and "kept_seq_lengths k = map ((!) seq_lengths) (keep_index k)"
    and "kept_feature_mask k = map_option (\<lambda>a. map ((!) a) (keep_index k)) fm"
    and "kept_y k = map_option (\<lambda>a. map ((!) a) (keep_index k)) y"
    and "kept_y_mask k = map_option (\<lambda>a. map ((!) a) (keep_index k)) ymask"
    and "\<forall>i \<in> set (keep_index k). i < length static \<and> i < length sequences \<and>
        i < length seq_lengths \<and> 0 < seq_lengths ! i \<and> seq_lengths ! i \<le> max_len"
    and "\<forall>a. fm = Some a \<longrightarrow> (\<forall>i \<in> set (keep_index k). i < length a)"
proof -
  let ?keep = "keep_index_of seq_lengths max_len"
  from assms obtain st sq sl sf sy sm where
    1: "np_take static ?keep = Inr st" and 2: "np_take sequences ?keep = Inr sq"
    and 3: "np_take seq_lengths ?keep = Inr sl" and 4: "np_take_opt fm ?keep = Inr sf"
    and 5: "np_take_opt y ?keep = Inr sy" and 6: "np_take_opt ymask ?keep = Inr sm"
    and k: "k = \<lparr>keep_index = ?keep, kept_static = st, kept_sequences = sq,
             kept_seq_lengths = sl, kept_feature_mask = sf, kept_y = sy, kept_y_mask = sm\<rparr>"
    by (auto simp: batchify_filter_def Let_def ebind_eq_Inr)
  show "keep_index k = ?keep" by (simp add: k)
  show "kept_static k = map ((!) static) (keep_index k)"
    using np_take_eq_Inr(1) [OF 1] by (simp add: k)
  show "kept_sequences k = map ((!) sequences) (keep_index k)"
    using np_take_eq_Inr(1) [OF 2] by (simp add: k)
  show "kept_seq_lengths k = map ((!) seq_lengths) (keep_index k)"
    using np_take_eq_Inr(1) [OF 3] by (simp add: k)
  show "kept_feature_mask k = map_option (\<lambda>a. map ((!) a) (keep_index k)) fm"
    using np_take_opt_eq_Inr(1) [OF 4] by (simp add: k)
  show "kept_y k = map_option (\<lambda>a. map ((!) a) (keep_index k)) y"
    using np_take_opt_eq_Inr(1) [OF 5] by (simp add: k)
  show "kept_y_mask k = map_option (\<lambda>a. map ((!) a) (keep_index k)) ymask"
    using np_take_opt_eq_Inr(1) [OF 6] by (simp add: k)
  show "\<forall>i \<in> set (keep_index k). i < length static \<and> i < length sequences \<and>
        i < length seq_lengths \<and> 0 < seq_lengths ! i \<and> seq_lengths ! i \<le> max_len"
    using np_take_eq_Inr(2) [OF 1] np_take_eq_Inr(2) [OF 2]
    by (simp add: k keep_index_of_set)
  show "\<forall>a. fm = Some a \<longrightarrow> (\<forall>i \<in> set (keep_index k). i < length a)"
    using np_take_opt_eq_Inr(2) [OF 4] by (simp add: k)
qed

lemma batchify_InrD:
  assumes "batchify srt sequences seq_lengths fm static y ymask max_len batch_size use cuda = Inr batches"
  shows "\<exists>k. batchify_filter sequences seq_lengths fm static y ymask max_len = Inr k \<and>
     batch_size \<noteq> 0 \<and>
     length batches = nat (N_mini_batches_of (length (keep_index k)) batch_size) \<and>
     (\<forall>j < length batches.
        get_mini_batch srt (mini_batch_indices_of (length (keep_index k)) batch_size j)
          (kept_sequences k) (kept_seq_lengths k) (kept_feature_mask k)
          (Some (kept_static k)) (kept_y k) (kept_y_mask k) (Some (keep_index k)) use cuda =
        Inr (batches ! j))"
proof -
  from assms obtain k where k: "batchify_filter sequences seq_lengths fm static y ymask max_len = Inr k"
    and rest: "(let N_data = length (kept_seq_lengths k) in
     if batch_size = 0 then Inl ZeroDivisionError
     else
       emap (\<lambda>which_mini_batch.
               get_mini_batch srt (mini_batch_indices_of N_data batch_size which_mini_batch)
                 (kept_sequences k) (kept_seq_lengths k) (kept_feature_mask k)
                 (Some (kept_static k)) (kept_y k) (kept_y_mask k) (Some (keep_index k))
                 use cuda)
         [0..<nat (N_mini_batches_of N_data batch_size)]) = Inr batches"
    by (auto simp: batchify_def ebind_eq_Inr)
  have N: "length (kept_seq_lengths k) = length (keep_index k)"
    using batchify_filter_InrD(4) [OF k] by simp
  from rest have bs: "batch_size \<noteq> 0" by (auto simp: Let_def split: if_splits)
  with rest N have em: "emap (\<lambda>which_mini_batch.
               get_mini_batch srt (mini_batch_indices_of (length (keep_index k)) batch_size which_mini_batch)
                 (kept_sequences k) (kept_seq_lengths k) (kept_feature_mask k)
                 (Some (kept_static k)) (kept_y k) (kept_y_mask k) (Some (keep_index k))
                 use cuda)
         [0..<nat (N_mini_batches_of (length (keep_index k)) batch_size)] = Inr batches"
    by (simp add: Let_def)
  from emap_eq_Inr [OF em] k bs show ?thesis by auto
qed

subsection \<open>Index fidelity\<close>



subsection \<open>Shapes of the dense arrays\<close>

lemma shape3_trunc_pad:
  assumes "\<forall>i \<in> set sidx. \<forall>v \<in> set (arr ! i). length v = D"
  shows "shape3 (length sidx) T D (map (\<lambda>i. trunc_pad T D (arr ! i)) sidx)"
proof (rule shape3_I)
  show "length (map (\<lambda>i. trunc_pad T D (arr ! i)) sidx) = length sidx" by simp
next
  fix b assume "b < length sidx"
  then show "length (map (\<lambda>i. trunc_pad T D (arr ! i)) sidx ! b) = T" by simp
next
  fix b t assume b: "b < length sidx" and t: "t < T"
  let ?x = "arr ! (sidx ! b)"
  from b have "sidx ! b \<in> set sidx" by simp
  with assms have w: "\<forall>v \<in> set ?x. length v = D" by blast
  have "trunc_pad T D ?x ! t \<in> set (trunc_pad T D ?x)"
    using t by (intro nth_mem) simp
  then have "length (trunc_pad T D ?x ! t) = D"
    using w by (auto simp: trunc_pad_def dest: in_set_takeD)
  with b show "length (map (\<lambda>i. trunc_pad T D (arr ! i)) sidx ! b ! t) = D" by simp
qed

lemma shape3_cat:
  assumes "shape3 B T D a" and "shape3 B T D' b"
  shows "shape3 B T (D + D') (map2 (map2 (@)) a b)"
proof (rule shape3_I)
  show "length (map2 (map2 (@)) a b) = B"
    using shape3_nth(1) [OF assms(1)] shape3_nth(1) [OF assms(2)] by simp
next
  fix i assume i: "i < B"
  then show "length (map2 (map2 (@)) a b ! i) = T"
    using shape3_nth(1,2) [OF assms(1)] shape3_nth(1,2) [OF assms(2)] by simp
next
  fix i t assume i: "i < B" and t: "t < T"
  then show "length (map2 (map2 (@)) a b ! i ! t) = D + D'"
    using shape3_nth [OF assms(1)] shape3_nth [OF assms(2)] by simp
qed

lemma shape3_map_length: "shape3 B T D x \<Longrightarrow> map length x = replicate B T"
  by (auto simp: shape3_def map_replicate_const [symmetric] intro: map_cong)

lemma pack_padded_sequence_width:
  assumes "pack_padded_sequence r Ls = Inr p" and "shape3 B T D r"
  shows "\<forall>v \<in> set (data p). length v = D"
proof -
  from assms(1) have len: "length Ls = length r" and ne: "numel r \<noteq> 0"
    and p: "p = \<lparr>data = concat (map (\<lambda>t. map (\<lambda>b. r ! b ! t) [0..<batch_size_at Ls t])
                              [0..<min (nat (hd Ls)) (length (hd r))]),
               batch_sizes = map (batch_size_at Ls) [0..<nat (hd Ls)]\<rparr>"
    by (auto simp: pack_padded_sequence_def split: if_splits)
  from assms(2) have B: "length r = B" by (simp add: shape3_nth)
  from ne have "r \<noteq> []" by (auto simp: numel_def)
  then have "hd r = r ! 0" "0 < B" using B by (auto simp: hd_conv_nth)
  with shape3_nth(2) [OF assms(2)] have T: "length (hd r) = T" by simp
  have bs: "batch_size_at Ls t \<le> B" for t
    using len B by (auto simp: batch_size_at_def intro: order_trans [OF length_filter_le])
  show ?thesis
  proof
    fix v assume "v \<in> set (data p)"
    then obtain t b where "t < T" "b < batch_size_at Ls t" "v = r ! b ! t"
      by (auto simp: p T)
    with bs [of t] shape3_nth(3) [OF assms(2), of b t] show "length v = D" by simp
  qed
qed

subsection \<open>Feature-mask fusion\<close>

lemma width_nth:
  assumes "\<forall>s \<in> set arr. \<forall>v \<in> set s. length v = D" and "\<forall>i \<in> set idx. i < length arr"
  shows "\<forall>i \<in> set idx. \<forall>v \<in> set (arr ! i). length v = D"
proof
  fix i assume "i \<in> set idx"
  with assms(2) have "arr ! i \<in> set arr" by simp
  with assms(1) show "\<forall>v \<in> set (arr ! i). length v = D" by blast
qed

lemma reversed_packed_width:
  assumes "reverse_sequences X sL = Inr r" and "pack_padded_sequence r sL = Inr p"
    and "shape3 B T D X" and "length sL = B"
  shows "\<forall>v \<in> set (data p). length v = D"
proof -
  from reverse_sequences_InrD [OF assms(1)] shape3_nth(1,2) [OF assms(3)]
  have "\<forall>b < B. 0 \<le> sL ! b \<and> sL ! b \<le> int T" by simp
  from reverse_sequences_shape3 [OF assms(3,4) this] assms(1) have "shape3 B T D r" by auto
  with assms(2) show ?thesis by (rule pack_padded_sequence_width)
qed

text \<open>
  C8. In a run of \<open>get_mini_batch\<close> that returns, on sequences and feature masks of
  \<open>input_dim = D\<close> channels: with a feature mask and \<open>use_feature_mask=True\<close> the tensor
  that is reversed and packed is the padded sequence with the padded feature mask
  appended channel-wise, of \<open>2 * D\<close> channels; with a feature mask and
  \<open>use_feature_mask=False\<close> it is the plain sequence, of \<open>D\<close> channels, and the dense
  feature mask is returned all the same; without a feature mask it is the plain sequence.
\<close>

theorem get_mini_batch_feature_mask_policy:
  assumes ok: "get_mini_batch srt idx sequences seq_lengths fm static y ymask ids use cuda = Inr mb"
    and w: "\<forall>s \<in> set sequences. \<forall>v \<in> set s. length v = D"
    and wm: "\<forall>m. fm = Some m \<longrightarrow> (\<forall>s \<in> set m. \<forall>v \<in> set s. length v = D) \<and>
        (\<forall>i \<in> set idx. i < length m \<longrightarrow> length (m ! i) = length (sequences ! i))"
  shows "\<exists>X r. reverse_sequences X (mb_sorted_seq_lengths mb) = Inr r \<and>
     pack_padded_sequence r (mb_sorted_seq_lengths mb) = Inr (mb_reversed_packed mb) \<and>
     (fm = None \<longrightarrow> X = mb_sequence mb \<and> mb_feature_mask mb = None \<and>
        (\<forall>v \<in> set (data (mb_reversed_packed mb)). length v = D)) \<and>
     (\<forall>m. fm = Some m \<longrightarrow>
        mb_feature_mask mb =
          Some (map (\<lambda>i. trunc_pad (nat (T_max_of idx seq_lengths)) D (m ! i))
                  (sorted_mini_batch_indices_of srt idx seq_lengths)) \<and>
        (use \<longrightarrow>
           X = map2 (map2 (@)) (mb_sequence mb)
                 (map (\<lambda>i. trunc_pad (nat (T_max_of idx seq_lengths)) D (m ! i))
                    (sorted_mini_batch_indices_of srt idx seq_lengths)) \<and>
           (\<forall>v \<in> set (data (mb_reversed_packed mb)). length v = 2 * D)) \<and>
        (\<not> use \<longrightarrow> X = mb_sequence mb \<and>
           (\<forall>v \<in> set (data (mb_reversed_packed mb)). length v = D)))"
proof -
  let ?sidx = "sorted_mini_batch_indices_of srt idx seq_lengths"
  let ?Tmax = "T_max_of idx seq_lengths"
  let ?T = "nat ?Tmax"
  let ?B = "length idx"
  let ?sL = "mb_sorted_seq_lengths mb"
  let ?p = "mb_reversed_packed mb"
  from get_mini_batch_InrD [OF ok] obtain Ls r where
    Ls: "np_take seq_lengths idx = Inr Ls"
    and rw0: "reverse_with_mask (mb_sequence mb) ?sL (Max (set Ls))
       (map ((!) idx) (sorted_seq_length_indices srt Ls)) fm use = Inr (mb_feature_mask mb, r)"
    and pk: "pack_padded_sequence r ?sL = Inr ?p"
    by blast
  from np_take_eq_Inr [OF Ls] have Ls_eq: "Ls = map ((!) seq_lengths) idx" by simp
  have sidx: "map ((!) idx) (sorted_seq_length_indices srt Ls) = ?sidx"
    by (simp add: sorted_mini_batch_indices_of_def Ls_eq)
  have Tmax: "Max (set Ls) = ?Tmax" by (simp add: T_max_of_def Ls_eq)
  note rw = rw0 [unfolded sidx Tmax]
  from get_mini_batch_dense [OF ok w wm] have
    rng: "\<forall>i \<in> set idx. i < length sequences"
    and sL: "?sL = map ((!) seq_lengths) ?sidx"
    and seqv: "mb_sequence mb = map (\<lambda>i. trunc_pad ?T D (sequences ! i)) ?sidx"
    and fmv: "mb_feature_mask mb = map_option (\<lambda>m. map (\<lambda>i. trunc_pad ?T D (m ! i)) ?sidx) fm"
    by auto
  have lsL: "length ?sL = ?B" by (simp add: sL)
  have "\<forall>i \<in> set ?sidx. \<forall>v \<in> set (sequences ! i). length v = D"
    using width_nth [OF w rng] by simp
  from shape3_trunc_pad [OF this, of ?T] have sh_seq: "shape3 ?B ?T D (mb_sequence mb)"
    by (simp add: seqv)
  from reverse_with_mask_InrD [OF rw] obtain X where
    X: "reverse_sequences X ?sL = Inr r"
    and Xc: "case fm of None \<Rightarrow> mb_feature_mask mb = None \<and> X = mb_sequence mb
      | Some m \<Rightarrow> (\<exists>g d. np_take m ?sidx = Inr g \<and>
          pad_sequence (map (\<lambda>x. slice_upto x ?Tmax) g) = Inr d \<and> mb_feature_mask mb = Some d \<and>
          (if use then map length (mb_sequence mb) = map length d \<and>
             X = map2 (map2 (@)) (mb_sequence mb) d
           else X = mb_sequence mb))"
    by blast
  have plain: "\<forall>v \<in> set (data ?p). length v = D" if "X = mb_sequence mb"
    using reversed_packed_width [OF X pk _ lsL] sh_seq that by simp
  have none: "fm = None \<longrightarrow> X = mb_sequence mb \<and> mb_feature_mask mb = None \<and>
        (\<forall>v \<in> set (data ?p). length v = D)"
    using Xc plain by (cases fm) auto
  have some: "\<forall>m. fm = Some m \<longrightarrow>
        mb_feature_mask mb = Some (map (\<lambda>i. trunc_pad ?T D (m ! i)) ?sidx) \<and>
        (use \<longrightarrow> X = map2 (map2 (@)) (mb_sequence mb) (map (\<lambda>i. trunc_pad ?T D (m ! i)) ?sidx) \<and>
           (\<forall>v \<in> set (data ?p). length v = 2 * D)) \<and>
        (\<not> use \<longrightarrow> X = mb_sequence mb \<and> (\<forall>v \<in> set (data ?p). length v = D))"
  proof (intro allI impI)
    fix m assume m: "fm = Some m"
    let ?d = "map (\<lambda>i. trunc_pad ?T D (m ! i)) ?sidx"
    from fmv m have fmd: "mb_feature_mask mb = Some ?d" by simp
    from Xc m fmd obtain g where g: "np_take m ?sidx = Inr g"
      and Xu: "if use then X = map2 (map2 (@)) (mb_sequence mb) ?d else X = mb_sequence mb"
      by auto
    from np_take_eq_Inr(2) [OF g] have rm: "\<forall>i \<in> set idx. i < length m" by simp
    from wm m have "\<forall>s \<in> set m. \<forall>v \<in> set s. length v = D" by simp
    from width_nth [OF this rm]
    have "\<forall>i \<in> set ?sidx. \<forall>v \<in> set (m ! i). length v = D" by simp
    from shape3_trunc_pad [OF this, of ?T] have sh_d: "shape3 ?B ?T D ?d" by simp
    have u: "X = map2 (map2 (@)) (mb_sequence mb) ?d \<and> (\<forall>v \<in> set (data ?p). length v = 2 * D)"
      if "use"
    proof -
      from Xu that have Xv: "X = map2 (map2 (@)) (mb_sequence mb) ?d" by simp
      from shape3_cat [OF sh_seq sh_d] Xv have "shape3 ?B ?T (D + D) X" by simp
      from reversed_packed_width [OF X pk this lsL] Xv show ?thesis by simp
    qed
    have n: "X = mb_sequence mb \<and> (\<forall>v \<in> set (data ?p). length v = D)" if "\<not> use"
      using Xu that plain by simp
    from fmd u n show "mb_feature_mask mb = Some ?d \<and>
        (use \<longrightarrow> X = map2 (map2 (@)) (mb_sequence mb) ?d \<and>
           (\<forall>v \<in> set (data ?p). length v = 2 * D)) \<and>
        (\<not> use \<longrightarrow> X = mb_sequence mb \<and> (\<forall>v \<in> set (data ?p). length v = D))"
      by blast
  qed
  from X pk none some show ?thesis by blast
qed

theorem get_mini_batch_feature_mask_policy_witness:
  "\<exists>mb. get_mini_batch stable_sort [0, 1::nat] [[[7, 8, 9]], [[1, 2, 3], [4, 5, 6::int]]] [1, 2::int]
       (Some [[[1, 1, 0]], [[1, 0, 1], [0, 1, 1::int]]]) (Some [[10], [20]]) None None (Some [4, 6]) True False = Inr mb \<and>
     data (mb_reversed_packed mb) = [[4, 5, 6, 0, 1, 1], [7, 8, 9, 1, 1, 0], [1, 2, 3, 1, 0, 1]] \<and>
     (\<exists>X r. reverse_sequences X (mb_sorted_seq_lengths mb) = Inr r \<and>
       pack_padded_sequence r (mb_sorted_seq_lengths mb) = Inr (mb_reversed_packed mb) \<and>
       (Some [[[1, 1, 0]], [[1, 0, 1], [0, 1, 1::int]]] = None \<longrightarrow> X = mb_sequence mb \<and> mb_feature_mask mb = None \<and>
          (\<forall>v \<in> set (data (mb_reversed_packed mb)). length v = 3)) \<and>
       (\<forall>m. Some [[[1, 1, 0]], [[1, 0, 1], [0, 1, 1::int]]] = Some m \<longrightarrow>
          mb_feature_mask mb =
            Some (map (\<lambda>i. trunc_pad (nat (T_max_of [0, 1::nat] [1, 2::int])) 3 (m ! i))
                    (sorted_mini_batch_indices_of stable_sort [0, 1::nat] [1, 2::int])) \<and>
          (True \<longrightarrow>
             X = map2 (map2 (@)) (mb_sequence mb)
                   (map (\<lambda>i. trunc_pad (nat (T_max_of [0, 1::nat] [1, 2::int])) 3 (m ! i))
                    (sorted_mini_batch_indices_of stable_sort [0, 1::nat] [1, 2::int])) \<and>
             (\<forall>v \<in> set (data (mb_reversed_packed mb)). length v = 2 * 3)) \<and>
          (\<not> True \<longrightarrow> X = mb_sequence mb \<and>
             (\<forall>v \<in> set (data (mb_reversed_packed mb)). length v = 3))))"
proof -
  let ?mb = "\<lparr>mb_static = [[20], [10::int]],
        mb_sequence = [[[1, 2, 3], [4, 5, 6]], [[7, 8, 9], [0, 0, 0]]],
        mb_reversed_packed =
          \<lparr>data = [[4, 5, 6, 0, 1, 1], [7, 8, 9, 1, 1, 0], [1, 2, 3, 1, 0, 1]],
             batch_sizes = [2, 1]\<rparr>,
        mb_mask = [[1, 1], [1, 0]], mb_sorted_seq_lengths = [2, 1],
        mb_feature_mask = Some [[[1, 0, 1], [0, 1, 1]], [[1, 1, 0], [0, 0, 0]]],
        mb_y = None, mb_y_mask = None, mb_source_indices = [6, 4]\<rparr>"
  have h: "get_mini_batch stable_sort [0, 1::nat] [[[7, 8, 9]], [[1, 2, 3], [4, 5, 6::int]]] [1, 2::int]
       (Some [[[1, 1, 0]], [[1, 0, 1], [0, 1, 1::int]]]) (Some [[10], [20]]) None None (Some [4, 6]) True False = Inr ?mb"
    by code_simp
  have w: "\<forall>s \<in> set [[[7, 8, 9]], [[1, 2, 3], [4, 5, 6::int]]]. \<forall>v \<in> set s. length v = 3"
    by simp
  have wm: "\<forall>m. Some [[[1, 1, 0]], [[1, 0, 1], [0, 1, 1::int]]] = Some m \<longrightarrow>
      (\<forall>s \<in> set m. \<forall>v \<in> set s. length v = 3) \<and>
      (\<forall>i \<in> set [0, 1::nat]. i < length m \<longrightarrow> length (m ! i) = length ([[[7, 8, 9]], [[1, 2, 3], [4, 5, 6::int]]] ! i))"
    by auto
  have d: "data (mb_reversed_packed ?mb) =
      [[4, 5, 6, 0, 1, 1], [7, 8, 9, 1, 1, 0], [1, 2, 3, 1, 0, 1]]"
    by simp
  note t = get_mini_batch_feature_mask_policy [OF h w wm]
  show ?thesis
    by (rule exI [of _ ?mb]) (intro conjI h d t)
qed

subsection \<open>Runs that return\<close>

lemma hd_sorted_rev_Max:
  assumes "sorted (rev xs)" and "xs \<noteq> []"
  shows "hd xs = Max (set (xs :: int list))"
proof -
  have "Max (set xs) = hd xs"
  proof (rule Max_eqI)
    show "finite (set xs)" by simp
    show "hd xs \<in> set xs" using assms(2) by simp
    fix y assume "y \<in> set xs"
    then obtain j where "j < length xs" "y = xs ! j" by (auto simp: in_set_conv_nth)
    with assms show "y \<le> hd xs"
      by (simp add: sorted_rev_iff_nth_mono hd_conv_nth)
  qed
  then show ?thesis by simp
qed

lemma Max_min_lengths:
  assumes "i0 \<in> set sidx" and "T \<le> length (arr ! i0)"
  shows "Max (set (map (\<lambda>s. min (length s) T) (map ((!) arr) sidx))) = T"
proof (rule Max_eqI)
  show "finite (set (map (\<lambda>s. min (length s) T) (map ((!) arr) sidx)))" by simp
  show "\<And>y. y \<in> set (map (\<lambda>s. min (length s) T) (map ((!) arr) sidx)) \<Longrightarrow> y \<le> T" by auto
  from assms have "min (length (arr ! i0)) T = T" by simp
  with assms(1) show "T \<in> set (map (\<lambda>s. min (length s) T) (map ((!) arr) sidx))"
    by (force simp: image_iff)
qed

lemma get_mini_batch_returns:
  assumes ne: "idx \<noteq> []"
    and rng: "\<forall>i \<in> set idx. i < length seq_lengths \<and> i < length sequences \<and> i < length st \<and>
        i < length ids'"
    and pos: "\<forall>i \<in> set idx. 0 < seq_lengths ! i \<and> seq_lengths ! i \<le> int (length (sequences ! i))"
    and w: "\<forall>i \<in> set idx. \<forall>v \<in> set (sequences ! i). length v = D" and D: "0 < D"
    and yr: "\<forall>a. y = Some a \<longrightarrow> (\<forall>i \<in> set idx. i < length a)"
    and ymr: "\<forall>a. ymask = Some a \<longrightarrow> (\<forall>i \<in> set idx. i < length a)"
    and wm: "\<forall>m. fm = Some m \<longrightarrow> (\<forall>i \<in> set idx. i < length m \<and>
        length (m ! i) = length (sequences ! i) \<and> (\<forall>v \<in> set (m ! i). length v = Dm))"
  shows "\<exists>mb. get_mini_batch srt idx sequences seq_lengths fm (Some st) y ymask (Some ids') use cuda =
     Inr mb"
proof -
  define Ls where "Ls = map ((!) seq_lengths) idx"
  define perm where "perm = sorted_seq_length_indices srt Ls"
  define sidx where "sidx = map ((!) idx) perm"
  define sL where "sL = map ((!) Ls) perm"
  define Tmax where "Tmax = Max (set Ls)"
  define T where "T = nat Tmax"
  define B where "B = length idx"
  have Ls_ne: "Ls \<noteq> []" using ne by (simp add: Ls_def)
  have B0: "0 < B" using ne by (simp add: B_def)
  have set_sidx: "set sidx = set idx"
    using sorted_mini_batch_indices_of_set [of srt idx seq_lengths]
    by (simp add: sidx_def perm_def Ls_def sorted_mini_batch_indices_of_def)
  have len_sidx: "length sidx = B" by (simp add: sidx_def perm_def Ls_def B_def)
  have sL_eq: "sL = map ((!) seq_lengths) sidx"
    using sorted_lengths_via_indices [of seq_lengths idx]
    by (simp add: sL_def sidx_def perm_def Ls_def sorted_mini_batch_indices_of_def)
  have len_sL: "length sL = B" by (simp add: sL_eq len_sidx)
  have 1: "np_take seq_lengths idx = Inr Ls"
    unfolding Ls_def using rng by (intro np_take_Inr) simp
  have Tmem: "Tmax \<in> set Ls" unfolding Tmax_def using Ls_ne by (intro Max_in) simp_all
  then obtain i0 where i0: "i0 \<in> set idx" "seq_lengths ! i0 = Tmax"
    by (auto simp: Ls_def)
  with pos have Tpos: "0 < Tmax" and Tfit: "T \<le> length (sequences ! i0)"
    by (auto simp: T_def)
  have T0: "0 < T" using Tpos by (simp add: T_def)
  have leT: "seq_lengths ! i \<le> Tmax" if "i \<in> set idx" for i
    unfolding Tmax_def using that by (intro Max_ge) (simp_all add: Ls_def)
  have bounds: "\<forall>b < B. 0 \<le> sL ! b \<and> sL ! b \<le> int T"
  proof (intro allI impI)
    fix b assume "b < B"
    then have b: "b < length sidx" by (simp add: len_sidx)
    then have "sidx ! b \<in> set sidx" by (rule nth_mem)
    then have mem: "sidx ! b \<in> set idx" by (simp only: set_sidx)
    from b have v: "sL ! b = seq_lengths ! (sidx ! b)" by (simp add: sL_eq)
    from pos mem have "0 < seq_lengths ! (sidx ! b)" by blast
    moreover from leT [OF mem] Tpos have "seq_lengths ! (sidx ! b) \<le> int T" by (simp add: T_def)
    ultimately show "0 \<le> sL ! b \<and> sL ! b \<le> int T" by (simp add: v)
  qed
  have ones: "\<forall>b < B. 1 \<le> sL ! b"
  proof (intro allI impI)
    fix b assume "b < B"
    then have b: "b < length sidx" by (simp add: len_sidx)
    then have "sidx ! b \<in> set sidx" by (rule nth_mem)
    then have mem: "sidx ! b \<in> set idx" by (simp only: set_sidx)
    from b have v: "sL ! b = seq_lengths ! (sidx ! b)" by (simp add: sL_eq)
    from pos mem have "0 < seq_lengths ! (sidx ! b)" by blast
    then show "1 \<le> sL ! b" by (simp add: v)
  qed
  have srt: "sorted (rev sL)"
    unfolding sL_def perm_def by (rule sorted_seq_lengths_descending)
  have hd_sL: "hd sL = int T"
  proof -
    have "sL \<noteq> []" using len_sL B0 by auto
    from hd_sorted_rev_Max [OF srt this] have "hd sL = Max (set sL)" .
    also have "set sL = set Ls"
      unfolding sL_def perm_def using sorted_seq_lengths_mset [of Ls] by (rule mset_eq_setD)
    finally show ?thesis using Tpos by (simp add: Tmax_def T_def)
  qed
  have 2: "np_take sequences sidx = Inr (map ((!) sequences) sidx)"
    using rng set_sidx by (intro np_take_Inr) simp
  have gw: "\<forall>s \<in> set (map ((!) sequences) sidx). \<forall>v \<in> set s. length v = D"
    using w set_sidx by auto
  have g_ne: "map ((!) sequences) sidx \<noteq> []" using len_sidx B0 by auto
  have Mg: "Max (set (map (\<lambda>s. min (length s) (nat Tmax)) (map ((!) sequences) sidx))) = nat Tmax"
    using Max_min_lengths [of i0 sidx T sequences] i0(1) set_sidx Tfit by (simp add: T_def)
  define mbatch where "mbatch = map (\<lambda>i. trunc_pad T D (sequences ! i)) sidx"
  have 3: "pad_sequence (map (\<lambda>x. slice_upto x Tmax) (map ((!) sequences) sidx)) = Inr mbatch"
    using pad_sequence_trunc_pad [OF g_ne gw _ Mg] Tpos
    by (simp add: mbatch_def T_def comp_def)
  have sh: "shape3 B T D mbatch"
    unfolding mbatch_def using shape3_trunc_pad [of sidx sequences D T] w set_sidx len_sidx
    by simp
  have 4: "np_take st sidx = Inr (map ((!) st) sidx)"
    using rng set_sidx by (intro np_take_Inr) simp
  have 5: "\<exists>mask. get_mini_batch_mask mbatch sL = Inr mask"
  proof -
    have "\<forall>b < length mbatch. 0 \<le> sL ! b \<and> sL ! b \<le> int (length (mbatch ! b))"
      using bounds shape3_nth(1,2) [OF sh] by simp
    with get_mini_batch_mask_Inr [of sL mbatch] len_sL shape3_nth(1) [OF sh] show ?thesis
      by simp
  qed
  have 6: "np_take_opt y sidx = Inr (map_option (\<lambda>a. map ((!) a) sidx) y)"
    using yr set_sidx by (intro np_take_opt_Inr) simp
  have 7: "np_take_opt ymask sidx = Inr (map_option (\<lambda>a. map ((!) a) sidx) ymask)"
    using ymr set_sidx by (intro np_take_opt_Inr) simp
  have rev_ok: "\<exists>r. reverse_sequences X sL = Inr r \<and> shape3 B T D' r" if "shape3 B T D' X" for X D'
    using reverse_sequences_shape3 [OF that len_sL bounds] by blast
  have 8: "\<exists>fmd r D'. reverse_with_mask mbatch sL Tmax sidx fm use = Inr (fmd, r) \<and>
      shape3 B T D' r \<and> 0 < D'"
  proof (cases fm)
    case None
    from rev_ok [OF sh] obtain r where "reverse_sequences mbatch sL = Inr r" "shape3 B T D r"
      by blast
    with None D show ?thesis by (auto simp: reverse_with_mask_def)
  next
    case (Some m)
    from wm Some have rm: "\<forall>i \<in> set idx. i < length m"
      and lm: "\<forall>i \<in> set idx. length (m ! i) = length (sequences ! i)"
      and mw: "\<forall>i \<in> set idx. \<forall>v \<in> set (m ! i). length v = Dm"
      by simp_all
    have g: "np_take m sidx = Inr (map ((!) m) sidx)"
      using rm set_sidx by (intro np_take_Inr) simp
    have mgw: "\<forall>s \<in> set (map ((!) m) sidx). \<forall>v \<in> set s. length v = Dm"
      using mw set_sidx by auto
    have mg_ne: "map ((!) m) sidx \<noteq> []" using len_sidx B0 by auto
    have "T \<le> length (m ! i0)" using Tfit lm i0(1) by simp
    from Max_min_lengths [of i0 sidx T m] i0(1) set_sidx this
    have Mm: "Max (set (map (\<lambda>s. min (length s) (nat Tmax)) (map ((!) m) sidx))) = nat Tmax"
      by (simp add: T_def)
    define d where "d = map (\<lambda>i. trunc_pad T Dm (m ! i)) sidx"
    have pd: "pad_sequence (map (\<lambda>x. slice_upto x Tmax) (map ((!) m) sidx)) = Inr d"
      using pad_sequence_trunc_pad [OF mg_ne mgw _ Mm] Tpos
      by (simp add: d_def T_def comp_def)
    have shd: "shape3 B T Dm d"
      unfolding d_def using shape3_trunc_pad [of sidx m Dm T] mw set_sidx len_sidx by simp
    show ?thesis
    proof (cases use)
      case False
      from rev_ok [OF sh] obtain r where "reverse_sequences mbatch sL = Inr r" "shape3 B T D r"
        by blast
      with Some False g pd D show ?thesis by (auto simp: reverse_with_mask_def)
    next
      case True
      have "map length mbatch = map length d"
        using shape3_map_length [OF sh] shape3_map_length [OF shd] by simp
      then have c: "cat_channels mbatch d = Inr (map2 (map2 (@)) mbatch d)"
        by (simp add: cat_channels_def)
      from rev_ok [OF shape3_cat [OF sh shd]] obtain r where
        "reverse_sequences (map2 (map2 (@)) mbatch d) sL = Inr r" "shape3 B T (D + Dm) r"
        by blast
      with Some True g pd c D show ?thesis
        by (auto simp: reverse_with_mask_def intro!: exI [of _ "D + Dm"])
    qed
  qed
  then obtain fmd r D' where rw: "reverse_with_mask mbatch sL Tmax sidx fm use = Inr (fmd, r)"
    and shr: "shape3 B T D' r" and D': "0 < D'"
    by blast
  from pack_padded_sequence_Inr [OF shr B0 D' len_sL srt ones hd_sL]
  obtain p where 9: "pack_padded_sequence r sL = Inr p" by blast
  have 10: "np_take ids' sidx = Inr (map ((!) ids') sidx)"
    using rng set_sidx by (intro np_take_Inr) simp
  from 5 obtain mask where mask: "get_mini_batch_mask mbatch sL = Inr mask" by blast
  have "get_mini_batch srt idx sequences seq_lengths fm (Some st) y ymask (Some ids') use cuda =
      Inr \<lparr>mb_static = map ((!) st) sidx, mb_sequence = mbatch,
            mb_reversed_packed = p, mb_mask = mask,
            mb_sorted_seq_lengths = sL,
            mb_feature_mask = fmd, mb_y = map_option (\<lambda>a. map ((!) a) sidx) y,
            mb_y_mask = map_option (\<lambda>a. map ((!) a) sidx) ymask,
            mb_source_indices = map ((!) ids') sidx\<rparr>"
    using Ls_ne 2 3 4 mask 6 7 rw 9 10
    unfolding get_mini_batch_def 1 sidx_def sL_def perm_def Tmax_def
    by (simp add: Let_def)
  then show ?thesis by blast
qed

subsection \<open>Chunks\<close>

lemma emap_returns:
  "(\<And>x. x \<in> set xs \<Longrightarrow> \<exists>y. f x = Inr y) \<Longrightarrow> \<exists>ys. emap f xs = Inr ys"
proof (induction xs)
  case Nil
  then show ?case by simp
next
  case (Cons x xs)
  from Cons.prems [of x] obtain y where "f x = Inr y" by auto
  moreover from Cons.IH Cons.prems obtain ys where "emap f xs = Inr ys" by auto
  ultimately show ?case by simp
qed

lemma N_mini_batches_of_pos:
  assumes "1 \<le> batch_size"
  shows "N_mini_batches_of N batch_size =
     int N div batch_size + (if int N mod batch_size = 0 then 0 else 1)"
proof -
  let ?q = "(of_nat N :: rat) / of_int batch_size"
  have q0: "0 \<le> ?q" using assms by simp
  have m0: "0 \<le> int N mod batch_size" using assms by simp
  have fl: "\<lfloor>?q\<rfloor> = int N div batch_size"
    using floor_divide_of_int_eq [of "int N" batch_size, where ?'a = rat] by simp
  show ?thesis
  proof (cases "int N mod batch_size = 0")
    case True
    with q0 fl show ?thesis by (simp add: N_mini_batches_of_def py_int_def)
  next
    case False
    with m0 have "0 < int N mod batch_size" by linarith
    moreover have "\<lfloor>?q + 1\<rfloor> = \<lfloor>?q\<rfloor> + 1" by simp
    moreover have "\<not> ?q + 1 < 0" using q0 by linarith
    ultimately show ?thesis using False fl
      by (simp add: N_mini_batches_of_def py_int_def)
  qed
qed

lemma nat_N_mini_batches_of:
  assumes "0 < b"
  shows "nat (N_mini_batches_of N (int b)) = N div b + (if N mod b = 0 then 0 else 1)"
proof -
  have d: "int N div int b = int (N div b)" by (simp add: zdiv_int)
  have "int N mod int b = int (N mod b)" by (simp add: zmod_int)
  then have m: "(int N mod int b = 0) = (N mod b = 0)" by simp
  from assms have "1 \<le> int b" by simp
  from N_mini_batches_of_pos [OF this, of N]
  have "N_mini_batches_of N (int b) = int (N div b) + (if N mod b = 0 then 0 else 1)"
    by (simp only: d m)
  also have "\<dots> = int (N div b + (if N mod b = 0 then 0 else 1))" by simp
  finally show ?thesis by (simp only: nat_int)
qed

lemma take_upt_min: "take m [i..<n] = [i..<min (i + m) n]"
proof (cases "i + m \<le> n")
  case True
  then show ?thesis by (simp add: take_upt min_def)
next
  case False
  then show ?thesis by (simp add: min_def)
qed

lemma mini_batch_indices_of_take_drop:
  "mini_batch_indices_of N (int b) j = take b (drop (j * b) [0..<N])"
proof -
  have "nat (int j * int b) = j * b" by (simp add: nat_mult_distrib)
  moreover have "nat (min ((int j + 1) * int b) (int N)) = min (j * b + b) N"
  proof -
    have e: "(int j + 1) * int b = int (j * b + b)" by (simp add: algebra_simps)
    have "min (int (j * b + b)) (int N) = int (min (j * b + b) N)" by (rule of_nat_min [symmetric])
    then show ?thesis by (simp only: e nat_int)
  qed
  ultimately show ?thesis
    by (simp add: mini_batch_indices_of_def Let_def take_upt_min)
qed

lemma concat_chunks: "concat (map (\<lambda>j. take b (drop (j * b) xs)) [0..<n]) = take (n * b) xs"
proof (induction n)
  case 0
  then show ?case by simp
next
  case (Suc n)
  have "Suc n * b = n * b + b" by simp
  then have "take (Suc n * b) xs = take (n * b) xs @ take b (drop (n * b) xs)"
    by (simp only: take_add)
  with Suc show ?case by simp
qed

lemma chunks_bounds:
  assumes "0 < (b::nat)" and "n = N div b + (if N mod b = 0 then 0 else 1)"
  shows "N \<le> n * b" and "j < n \<Longrightarrow> j * b < N"
    and "j < n \<Longrightarrow> min b (N - j * b) = (if j + 1 < n \<or> N mod b = 0 then b else N mod b)"
proof -
  have N: "N = (N div b) * b + N mod b" by simp
  have r: "N mod b < b" using assms(1) by simp
  show "N \<le> n * b"
  proof (cases "N mod b = 0")
    case True
    with assms(2) N show ?thesis by simp
  next
    case False
    with assms(2) have "n * b = (N div b) * b + b" by simp
    with N r show ?thesis by linarith
  qed
  { assume j: "j < n"
    have jb: "j * b \<le> (n - 1) * b" using j by (intro mult_right_mono) simp_all
    show "j * b < N"
    proof (cases "N mod b = 0")
      case True
      with assms(2) N have nb: "n * b = N" by simp
      from j have "Suc j \<le> n" by simp
      then have "Suc j * b \<le> n * b" by (rule mult_right_mono) simp
      with nb assms(1) show ?thesis by simp
    next
      case False
      with assms(2) have "(n - 1) * b = (N div b) * b" by simp
      with N False jb show ?thesis by linarith
    qed
    show "min b (N - j * b) = (if j + 1 < n \<or> N mod b = 0 then b else N mod b)"
    proof (cases "j + 1 < n")
      case True
      then have "Suc j \<le> n - 1" by simp
      then have "Suc j * b \<le> (n - 1) * b" by (rule mult_right_mono) simp
      moreover have "(n - 1) * b \<le> N"
      proof (cases "N mod b = 0")
        case True
        with assms(2) N have "n * b = N" by simp
        moreover have "(n - 1) * b \<le> n * b" by (rule mult_right_mono) simp_all
        ultimately show ?thesis by simp
      next
        case False
        with assms(2) have "(n - 1) * b = (N div b) * b" by simp
        with N show ?thesis by linarith
      qed
      ultimately have "j * b + b \<le> N" by simp
      with True show ?thesis by simp
    next
      case False
      with j have jn: "j = n - 1" by simp
      show ?thesis
      proof (cases "N mod b = 0")
        case True
        with assms(2) N have "n * b = N" by simp
        moreover from j jn have "n * b = j * b + b" by (cases n) simp_all
        ultimately show ?thesis using True by simp
      next
        case nz: False
        with assms(2) jn have "j * b = (N div b) * b" by simp
        with N have "N - j * b = N mod b" by linarith
        with r nz False show ?thesis by simp
      qed
    qed }
qed

subsection \<open>The partition of batchify\<close>

lemma get_mini_batch_source_mset:
  assumes "get_mini_batch srt idx sequences seq_lengths fm static y ymask (Some ids') use cuda = Inr mb"
  shows "mset (mb_source_indices mb) = mset (map ((!) ids') idx)"
    and "length (mb_source_indices mb) = length idx"
proof -
  from get_mini_batch_InrD [OF assms] obtain Ls where
    Ls: "np_take seq_lengths idx = Inr Ls"
    and src: "np_take ids' (map ((!) idx) (sorted_seq_length_indices srt Ls)) = Inr (mb_source_indices mb)"
    by auto
  from np_take_eq_Inr(1) [OF Ls] have "map ((!) idx) (sorted_seq_length_indices srt Ls) =
      sorted_mini_batch_indices_of srt idx seq_lengths"
    by (simp add: sorted_mini_batch_indices_of_def)
  with np_take_eq_Inr(1) [OF src]
  have v: "mb_source_indices mb = map ((!) ids') (sorted_mini_batch_indices_of srt idx seq_lengths)"
    by simp
  show "mset (mb_source_indices mb) = mset (map ((!) ids') idx)"
    unfolding v by (simp add: sorted_mini_batch_indices_of_mset)
  show "length (mb_source_indices mb) = length idx" by (simp add: v)
qed

text \<open>
  C7. On a well-formed dataset (parallel arrays of one length, no declared length beyond
  the stored array, a uniform channel count of at least one) and for every
  \<open>batch_size \<ge> 1\<close>, \<open>batchify\<close> returns \<open>ceil(N / batch_size)\<close> MiniBatches for the \<open>N\<close> kept
  examples; the \<open>j\<close>-th holds exactly the examples of the \<open>j\<close>-th contiguous chunk of
  \<open>batch_size\<close> kept examples, so every chunk but possibly the last has \<open>batch_size\<close>
  examples and the last has \<open>N mod batch_size\<close> when that is not zero; every kept example
  is in exactly one MiniBatch; with no kept example the result is the empty list.
\<close>

theorem batchify_partition:
  assumes len: "length sequences = length seq_lengths" "length static = length seq_lengths"
    and fml: "\<forall>m. fm = Some m \<longrightarrow> length m = length seq_lengths \<and>
        (\<forall>i < length seq_lengths. length (m ! i) = length (sequences ! i) \<and>
           (\<forall>v \<in> set (m ! i). length v = Dm))"
    and yl: "\<forall>a. y = Some a \<longrightarrow> length a = length seq_lengths"
    and yml: "\<forall>a. ymask = Some a \<longrightarrow> length a = length seq_lengths"
    and decl: "\<forall>i < length seq_lengths. seq_lengths ! i \<le> int (length (sequences ! i))"
    and w: "\<forall>s \<in> set sequences. \<forall>v \<in> set s. length v = D" and D: "0 < D"
    and bs: "1 \<le> batch_size"
  shows "\<exists>batches.
     batchify srt sequences seq_lengths fm static y ymask max_len batch_size use cuda = Inr batches \<and>
     (let keep = keep_index_of seq_lengths max_len; N = length keep; b = nat batch_size in
      length batches = N div b + (if N mod b = 0 then 0 else 1) \<and>
      (\<forall>j < length batches.
         mset (mb_source_indices (batches ! j)) = mset (take b (drop (j * b) keep)) \<and>
         length (mb_source_indices (batches ! j)) =
           (if j + 1 < length batches \<or> N mod b = 0 then b else N mod b)) \<and>
      mset (concat (map mb_source_indices batches)) = mset keep \<and>
      distinct (concat (map mb_source_indices batches)) \<and>
      (keep = [] \<longrightarrow> batches = []))"
proof -
  define keep where "keep = keep_index_of seq_lengths max_len"
  define N where "N = length keep"
  define b where "b = nat batch_size"
  define n where "n = N div b + (if N mod b = 0 then 0 else 1)"
  define ks where "ks = map ((!) sequences) keep"
  define kl where "kl = map ((!) seq_lengths) keep"
  define kst where "kst = map ((!) static) keep"
  define kfm where "kfm = map_option (\<lambda>a. map ((!) a) keep) fm"
  define ky where "ky = map_option (\<lambda>a. map ((!) a) keep) y"
  define kym where "kym = map_option (\<lambda>a. map ((!) a) keep) ymask"
  have b0: "0 < b" and bsz: "batch_size = int b" using bs by (simp_all add: b_def)
  have kept: "i < length seq_lengths \<and> 0 < seq_lengths ! i \<and> seq_lengths ! i \<le> max_len"
    if "i \<in> set keep" for i
    using that by (simp add: keep_def keep_index_of_set)
  have filt: "batchify_filter sequences seq_lengths fm static y ymask max_len =
      Inr \<lparr>keep_index = keep, kept_static = kst, kept_sequences = ks, kept_seq_lengths = kl,
           kept_feature_mask = kfm, kept_y = ky, kept_y_mask = kym\<rparr>"
    unfolding keep_def kst_def ks_def kl_def kfm_def ky_def kym_def
    using fml yl yml by (intro batchify_filter_Inr len) simp_all
  let ?chunk = "\<lambda>j. mini_batch_indices_of N (int b) j"
  have chunk: "?chunk j = take b (drop (j * b) [0..<N])" for j
    by (rule mini_batch_indices_of_take_drop)
  note cb = chunks_bounds [OF b0 n_def]
  have chunk_len: "length (?chunk j) = min b (N - j * b)" for j
    by (simp add: chunk)
  have chunk_ne: "?chunk j \<noteq> []" if "j < n" for j
  proof -
    from cb(2) [OF that] b0 have "0 < min b (N - j * b)" by simp
    then show ?thesis using chunk_len [of j] by auto
  qed
  have chunk_rng: "i < N" if "i \<in> set (?chunk j)" for i j
    using that by (auto simp: chunk dest!: in_set_takeD in_set_dropD)
  have one: "\<exists>mb. get_mini_batch srt (?chunk j) ks kl kfm (Some kst) ky kym (Some keep) use cuda = Inr mb"
    if j: "j < n" for j
  proof (rule get_mini_batch_returns [OF chunk_ne [OF j] _ _ _ D])
    show "\<forall>i \<in> set (?chunk j). i < length kl \<and> i < length ks \<and> i < length kst \<and> i < length keep"
      using chunk_rng by (auto simp: kl_def ks_def kst_def N_def)
    show "\<forall>i \<in> set (?chunk j). 0 < kl ! i \<and> kl ! i \<le> int (length (ks ! i))"
    proof
      fix i assume "i \<in> set (?chunk j)"
      then have i: "i < length keep" using chunk_rng by (simp add: N_def)
      then have "keep ! i \<in> set keep" by simp
      from kept [OF this] decl i show "0 < kl ! i \<and> kl ! i \<le> int (length (ks ! i))"
        by (simp add: kl_def ks_def)
    qed
    show "\<forall>i \<in> set (?chunk j). \<forall>v \<in> set (ks ! i). length v = D"
    proof
      fix i assume "i \<in> set (?chunk j)"
      then have i: "i < length keep" using chunk_rng by (simp add: N_def)
      then have "keep ! i \<in> set keep" by simp
      from kept [OF this] len(1) have "sequences ! (keep ! i) \<in> set sequences" by simp
      with w i show "\<forall>v \<in> set (ks ! i). length v = D" by (simp add: ks_def)
    qed
    show "\<forall>a. ky = Some a \<longrightarrow> (\<forall>i \<in> set (?chunk j). i < length a)"
      using chunk_rng by (auto simp: ky_def N_def)
    show "\<forall>a. kym = Some a \<longrightarrow> (\<forall>i \<in> set (?chunk j). i < length a)"
      using chunk_rng by (auto simp: kym_def N_def)
    show "\<forall>m. kfm = Some m \<longrightarrow> (\<forall>i \<in> set (?chunk j). i < length m \<and>
        length (m ! i) = length (ks ! i) \<and> (\<forall>v \<in> set (m ! i). length v = Dm))"
    proof (intro allI impI ballI)
      fix m' i assume m': "kfm = Some m'" and "i \<in> set (?chunk j)"
      then have i: "i < length keep" using chunk_rng by (simp add: N_def)
      then have "keep ! i \<in> set keep" by simp
      from kept [OF this] have ki: "keep ! i < length seq_lengths" by simp
      from m' obtain m where m: "fm = Some m" "m' = map ((!) m) keep"
        by (auto simp: kfm_def)
      from fml m(1) ki have "length (m ! (keep ! i)) = length (sequences ! (keep ! i))"
        "\<forall>v \<in> set (m ! (keep ! i)). length v = Dm"
        by simp_all
      with i show "i < length m' \<and> length (m' ! i) = length (ks ! i) \<and>
          (\<forall>v \<in> set (m' ! i). length v = Dm)"
        by (simp add: m(2) ks_def)
    qed
  qed
  have "\<exists>batches. emap (\<lambda>j. get_mini_batch srt (?chunk j) ks kl kfm (Some kst) ky kym (Some keep)
      use cuda) [0..<n] = Inr batches"
    by (rule emap_returns) (simp add: one)
  then obtain batches where em: "emap (\<lambda>j. get_mini_batch srt (?chunk j) ks kl kfm (Some kst) ky kym
      (Some keep) use cuda) [0..<n] = Inr batches"
    by blast
  have nmb: "nat (N_mini_batches_of N (int b)) = n"
    unfolding n_def by (rule nat_N_mini_batches_of [OF b0])
  have lkl: "length kl = N" by (simp add: kl_def N_def)
  have res: "batchify srt sequences seq_lengths fm static y ymask max_len batch_size use cuda = Inr batches"
    using em bs by (simp add: batchify_def filt Let_def lkl nmb bsz)
  from emap_eq_Inr [OF em] have lb: "length batches = n"
    and each: "\<And>j. j < n \<Longrightarrow> get_mini_batch srt (?chunk j) ks kl kfm (Some kst) ky kym (Some keep)
      use cuda = Inr (batches ! j)"
    by simp_all
  have keep_chunk: "map ((!) keep) (?chunk j) = take b (drop (j * b) keep)" for j
  proof -
    have "map ((!) keep) (?chunk j) = take b (drop (j * b) (map ((!) keep) [0..<N]))"
      by (simp add: chunk take_map drop_map)
    then show ?thesis by (simp add: N_def map_nth)
  qed
  have src: "mset (mb_source_indices (batches ! j)) = mset (take b (drop (j * b) keep))"
    and srcl: "length (mb_source_indices (batches ! j)) =
      (if j + 1 < n \<or> N mod b = 0 then b else N mod b)" if "j < n" for j
    using get_mini_batch_source_mset [OF each [OF that]] keep_chunk [of j] chunk_len [of j]
      cb(3) [OF that]
    by simp_all
  have all: "mset (concat (map mb_source_indices batches)) = mset keep"
  proof -
    have "map (\<lambda>mb. mset (mb_source_indices mb)) batches =
        map (\<lambda>j. mset (mb_source_indices (batches ! j))) [0..<n]"
      by (rule nth_equalityI) (simp_all add: lb)
    also have "\<dots> = map (\<lambda>j. mset (take b (drop (j * b) keep))) [0..<n]"
      using src by simp
    finally have "mset (concat (map mb_source_indices batches)) =
        mset (concat (map (\<lambda>j. take b (drop (j * b) keep)) [0..<n]))"
      by (simp add: mset_concat comp_def)
    also have "\<dots> = mset (take (n * b) keep)" by (simp only: concat_chunks)
    also have "\<dots> = mset keep" using cb(1) by (simp add: N_def)
    finally show ?thesis .
  qed
  have dist: "distinct (concat (map mb_source_indices batches))"
    using mset_eq_imp_distinct_iff [OF all] by (simp add: keep_def keep_index_of_distinct)
  have empty: "keep = [] \<longrightarrow> batches = []"
    using lb by (auto simp: n_def N_def)
  from res lb src srcl all dist empty show ?thesis
    unfolding Let_def keep_def [symmetric] N_def [symmetric] b_def [symmetric] n_def [symmetric]
    by (intro exI [of _ batches] conjI) simp_all
qed

theorem batchify_partition_witness:
  "(case batchify stable_sort [[[1]], [[2], [3]], [], [[4]], [[5]], [[6], [7::int]]] [1, 2, 0, 1, 1, 2::int] None
       [[0], [1], [2], [3], [4], [5]] None None 100 2 False False of
      Inl e \<Rightarrow> [] | Inr batches \<Rightarrow> map mb_source_indices batches) = [[1, 0], [4, 3], [5]] \<and>
   (\<exists>batches. batchify stable_sort [[[1]], [[2], [3]], [], [[4]], [[5]], [[6], [7::int]]] [1, 2, 0, 1, 1, 2::int] None
       [[0], [1], [2], [3], [4], [5]] None None 100 2 False False = Inr batches \<and>
     (let keep = keep_index_of [1, 2, 0, 1, 1, 2::int] 100; N = length keep; b = nat 2 in
      length batches = N div b + (if N mod b = 0 then 0 else 1) \<and>
      (\<forall>j < length batches.
         mset (mb_source_indices (batches ! j)) = mset (take b (drop (j * b) keep)) \<and>
         length (mb_source_indices (batches ! j)) =
           (if j + 1 < length batches \<or> N mod b = 0 then b else N mod b)) \<and>
      mset (concat (map mb_source_indices batches)) = mset keep \<and>
      distinct (concat (map mb_source_indices batches)) \<and>
      (keep = [] \<longrightarrow> batches = [])))"
proof (rule conjI)
  show "(case batchify stable_sort [[[1]], [[2], [3]], [], [[4]], [[5]], [[6], [7::int]]] [1, 2, 0, 1, 1, 2::int] None
       [[0], [1], [2], [3], [4], [5]] None None 100 2 False False of
      Inl e \<Rightarrow> [] | Inr batches \<Rightarrow> map mb_source_indices batches) = [[1, 0], [4, 3], [5]]"
    by code_simp
  have len: "length [[[1]], [[2], [3]], [], [[4]], [[5]], [[6], [7::int]]] = length [1, 2, 0, 1, 1, 2::int]"
    "length [[0], [1], [2], [3], [4], [5]] = length [1, 2, 0, 1, 1, 2::int]"
    by simp_all
  have decl: "\<forall>i < length [1, 2, 0, 1, 1, 2::int]. [1, 2, 0, 1, 1, 2::int] ! i \<le> int (length ([[[1]], [[2], [3]], [], [[4]], [[5]], [[6], [7::int]]] ! i))"
    by (simp add: All_less_Suc)
  have w: "\<forall>s \<in> set [[[1]], [[2], [3]], [], [[4]], [[5]], [[6], [7::int]]]. \<forall>v \<in> set s. length v = 1"
    by simp
  show "\<exists>batches. batchify stable_sort [[[1]], [[2], [3]], [], [[4]], [[5]], [[6], [7::int]]] [1, 2, 0, 1, 1, 2::int] None
       [[0], [1], [2], [3], [4], [5]] None None 100 2 False False = Inr batches \<and>
     (let keep = keep_index_of [1, 2, 0, 1, 1, 2::int] 100; N = length keep; b = nat 2 in
      length batches = N div b + (if N mod b = 0 then 0 else 1) \<and>
      (\<forall>j < length batches.
         mset (mb_source_indices (batches ! j)) = mset (take b (drop (j * b) keep)) \<and>
         length (mb_source_indices (batches ! j)) =
           (if j + 1 < length batches \<or> N mod b = 0 then b else N mod b)) \<and>
      mset (concat (map mb_source_indices batches)) = mset keep \<and>
      distinct (concat (map mb_source_indices batches)) \<and>
      (keep = [] \<longrightarrow> batches = []))"
    by (rule batchify_partition [OF len _ _ _ decl w]) simp_all
qed

subsection \<open>Without a feature mask\<close>

lemma reverse_with_mask_None:
  "reverse_with_mask mbatch sL T sidx None use =
     ebind (reverse_sequences mbatch sL) (\<lambda>r. Inr (None, r))"
  by (simp add: reverse_with_mask_def)

text \<open>
  C10. Without a feature mask \<open>get_mini_batch\<close> does not look at \<open>use_feature_mask\<close>: on
  every input the outcome with \<open>use_feature_mask=True\<close> is the outcome with
  \<open>use_feature_mask=False\<close>; whenever it returns, the returned feature mask is \<open>None\<close> and
  the packed representation is the reversed plain sequence; and on every non-empty batch
  of well-formed examples it does return, with \<open>input_dim = D\<close> channels in every packed
  time step.
\<close>

theorem get_mini_batch_no_mask_ignores_flag:
  "get_mini_batch srt idx sequences seq_lengths None static y ymask ids use cuda =
     get_mini_batch srt idx sequences seq_lengths None static y ymask ids False cuda \<and>
   (\<forall>mb. get_mini_batch srt idx sequences seq_lengths None static y ymask ids use cuda = Inr mb \<longrightarrow>
      mb_feature_mask mb = None \<and>
      (\<exists>r. reverse_sequences (mb_sequence mb) (mb_sorted_seq_lengths mb) = Inr r \<and>
         pack_padded_sequence r (mb_sorted_seq_lengths mb) = Inr (mb_reversed_packed mb))) \<and>
   (idx \<noteq> [] \<and> static = Some st \<and> ids = Some ids' \<and>
    (\<forall>i \<in> set idx. i < length seq_lengths \<and> i < length sequences \<and> i < length st \<and>
       i < length ids' \<and> 0 < seq_lengths ! i \<and> seq_lengths ! i \<le> int (length (sequences ! i))) \<and>
    (\<forall>s \<in> set sequences. \<forall>v \<in> set s. length v = D) \<and> 0 < D \<and>
    (\<forall>a. y = Some a \<longrightarrow> (\<forall>i \<in> set idx. i < length a)) \<and>
    (\<forall>a. ymask = Some a \<longrightarrow> (\<forall>i \<in> set idx. i < length a)) \<longrightarrow>
    (\<exists>mb. get_mini_batch srt idx sequences seq_lengths None static y ymask ids use cuda = Inr mb \<and>
       (\<forall>v \<in> set (data (mb_reversed_packed mb)). length v = D)))"
proof (intro conjI allI impI)
  show "get_mini_batch srt idx sequences seq_lengths None static y ymask ids use cuda =
     get_mini_batch srt idx sequences seq_lengths None static y ymask ids False cuda"
    by (simp add: get_mini_batch_def reverse_with_mask_None Let_def cong: if_cong)
next
  fix mb
  assume ok: "get_mini_batch srt idx sequences seq_lengths None static y ymask ids use cuda = Inr mb"
  from get_mini_batch_InrD [OF ok] obtain Ls r where
    rw: "reverse_with_mask (mb_sequence mb) (mb_sorted_seq_lengths mb) (Max (set Ls))
       (map ((!) idx) (sorted_seq_length_indices srt Ls)) None use = Inr (mb_feature_mask mb, r)"
    and pk: "pack_padded_sequence r (mb_sorted_seq_lengths mb) = Inr (mb_reversed_packed mb)"
    by blast
  from rw have "mb_feature_mask mb = None"
    and "reverse_sequences (mb_sequence mb) (mb_sorted_seq_lengths mb) = Inr r"
    by (auto simp: reverse_with_mask_None ebind_eq_Inr)
  with pk show "mb_feature_mask mb = None"
    and "\<exists>r. reverse_sequences (mb_sequence mb) (mb_sorted_seq_lengths mb) = Inr r \<and>
         pack_padded_sequence r (mb_sorted_seq_lengths mb) = Inr (mb_reversed_packed mb)"
    by blast+
next
  assume wf: "idx \<noteq> [] \<and> static = Some st \<and> ids = Some ids' \<and>
    (\<forall>i \<in> set idx. i < length seq_lengths \<and> i < length sequences \<and> i < length st \<and>
       i < length ids' \<and> 0 < seq_lengths ! i \<and> seq_lengths ! i \<le> int (length (sequences ! i))) \<and>
    (\<forall>s \<in> set sequences. \<forall>v \<in> set s. length v = D) \<and> 0 < D \<and>
    (\<forall>a. y = Some a \<longrightarrow> (\<forall>i \<in> set idx. i < length a)) \<and>
    (\<forall>a. ymask = Some a \<longrightarrow> (\<forall>i \<in> set idx. i < length a))"
  then have ne: "idx \<noteq> []" and st: "static = Some st" and ids: "ids = Some ids'"
    and ex: "\<forall>i \<in> set idx. i < length seq_lengths \<and> i < length sequences \<and> i < length st \<and>
       i < length ids' \<and> 0 < seq_lengths ! i \<and> seq_lengths ! i \<le> int (length (sequences ! i))"
    and w: "\<forall>s \<in> set sequences. \<forall>v \<in> set s. length v = D" and D: "0 < D"
    and yr: "\<forall>a. y = Some a \<longrightarrow> (\<forall>i \<in> set idx. i < length a)"
    and ymr: "\<forall>a. ymask = Some a \<longrightarrow> (\<forall>i \<in> set idx. i < length a)"
    by blast+
  from ex have rng: "\<forall>i \<in> set idx. i < length seq_lengths \<and> i < length sequences \<and>
      i < length st \<and> i < length ids'"
    and pos: "\<forall>i \<in> set idx. 0 < seq_lengths ! i \<and> seq_lengths ! i \<le> int (length (sequences ! i))"
    by blast+
  from rng have "\<forall>i \<in> set idx. i < length sequences" by blast
  from width_nth [OF w this] have wb: "\<forall>i \<in> set idx. \<forall>v \<in> set (sequences ! i). length v = D" .
  have nofm: "\<forall>m. (None :: 'a list list list option) = Some m \<longrightarrow> (\<forall>i \<in> set idx. i < length m \<and>
        length (m ! i) = length (sequences ! i) \<and> (\<forall>v \<in> set (m ! i). length v = D))"
    by simp
  from get_mini_batch_returns [OF ne rng pos wb D yr ymr nofm, of srt use cuda] obtain mb where
    ok: "get_mini_batch srt idx sequences seq_lengths None static y ymask ids use cuda = Inr mb"
    by (auto simp: st ids)
  have nofm': "\<forall>m. (None :: 'a list list list option) = Some m \<longrightarrow>
      (\<forall>s \<in> set m. \<forall>v \<in> set s. length v = D) \<and>
      (\<forall>i \<in> set idx. i < length m \<longrightarrow> length (m ! i) = length (sequences ! i))"
    by simp
  from get_mini_batch_dense [OF ok w nofm'] have
    sL: "mb_sorted_seq_lengths mb = map ((!) seq_lengths) (sorted_mini_batch_indices_of srt idx seq_lengths)"
    and seqv: "mb_sequence mb = map (\<lambda>i. trunc_pad (nat (T_max_of idx seq_lengths)) D (sequences ! i))
         (sorted_mini_batch_indices_of srt idx seq_lengths)"
    by auto
  have "\<forall>i \<in> set (sorted_mini_batch_indices_of srt idx seq_lengths).
      \<forall>v \<in> set (sequences ! i). length v = D"
    using wb by simp
  from shape3_trunc_pad [OF this, of "nat (T_max_of idx seq_lengths)"]
  have sh: "shape3 (length idx) (nat (T_max_of idx seq_lengths)) D (mb_sequence mb)"
    by (simp add: seqv)
  from get_mini_batch_InrD [OF ok] obtain Ls r where
    rw: "reverse_with_mask (mb_sequence mb) (mb_sorted_seq_lengths mb) (Max (set Ls))
       (map ((!) idx) (sorted_seq_length_indices srt Ls)) None use = Inr (mb_feature_mask mb, r)"
    and pk: "pack_padded_sequence r (mb_sorted_seq_lengths mb) = Inr (mb_reversed_packed mb)"
    by blast
  from rw have rv: "reverse_sequences (mb_sequence mb) (mb_sorted_seq_lengths mb) = Inr r"
    by (auto simp: reverse_with_mask_None ebind_eq_Inr)
  have "length (mb_sorted_seq_lengths mb) = length idx" by (simp add: sL)
  from reversed_packed_width [OF rv pk sh this] ok
  show "\<exists>mb. get_mini_batch srt idx sequences seq_lengths None static y ymask ids use cuda = Inr mb \<and>
       (\<forall>v \<in> set (data (mb_reversed_packed mb)). length v = D)"
    by blast
qed

theorem get_mini_batch_no_mask_ignores_flag_witness:
  "get_mini_batch stable_sort [0, 1, 2::nat] [[[1]], [[2], [3]], [[4::int]]] [1, 2, 1::int] None
       (Some [[10], [20], [30::int]]) None None (Some [0, 1, 2::nat]) True False =
     get_mini_batch stable_sort [0, 1, 2::nat] [[[1]], [[2], [3]], [[4::int]]] [1, 2, 1::int] None
       (Some [[10], [20], [30::int]]) None None (Some [0, 1, 2::nat]) False False \<and>
   get_mini_batch stable_sort [0, 1, 2::nat] [[[1]], [[2], [3]], [[4::int]]] [1, 2, 1::int] None
       (Some [[10], [20], [30::int]]) None None (Some [0, 1, 2::nat]) True False =
     Inr \<lparr>mb_static = [[20], [30], [10]], mb_sequence = [[[2], [3]], [[4], [0]], [[1], [0]]],
        mb_reversed_packed = \<lparr>data = [[3], [4], [1], [2]], batch_sizes = [3, 1]\<rparr>,
        mb_mask = [[1, 1], [1, 0], [1, 0]], mb_sorted_seq_lengths = [2, 1, 1],
        mb_feature_mask = None, mb_y = None, mb_y_mask = None,
        mb_source_indices = [1, 2, 0]\<rparr> \<and>
   (\<exists>mb. get_mini_batch stable_sort [0, 1, 2::nat] [[[1]], [[2], [3]], [[4::int]]] [1, 2, 1::int] None
       (Some [[10], [20], [30::int]]) None None (Some [0, 1, 2::nat]) True False = Inr mb \<and>
       (\<forall>v \<in> set (data (mb_reversed_packed mb)). length v = 1))"
proof -
  note t = get_mini_batch_no_mask_ignores_flag [of stable_sort "[0, 1, 2::nat]" "[[[1]], [[2], [3]], [[4::int]]]" "[1, 2, 1::int]"
      "Some [[10], [20], [30::int]]" None None "Some [0, 1, 2::nat]" True False "[[10], [20], [30::int]]" "[0, 1, 2::nat]" 1]
  have wf: "[0, 1, 2::nat] \<noteq> [] \<and> Some [[10], [20], [30::int]] = Some [[10], [20], [30::int]] \<and> Some [0, 1, 2::nat] = Some [0, 1, 2::nat] \<and>
    (\<forall>i \<in> set [0, 1, 2::nat]. i < length [1, 2, 1::int] \<and> i < length [[[1]], [[2], [3]], [[4::int]]] \<and> i < length [[10], [20], [30::int]] \<and>
       i < length [0, 1, 2::nat] \<and> 0 < [1, 2, 1::int] ! i \<and> [1, 2, 1::int] ! i \<le> int (length ([[[1]], [[2], [3]], [[4::int]]] ! i))) \<and>
    (\<forall>s \<in> set [[[1]], [[2], [3]], [[4::int]]]. \<forall>v \<in> set s. length v = 1) \<and> 0 < (1::nat) \<and>
    (\<forall>a. (None :: int list option) = Some a \<longrightarrow> (\<forall>i \<in> set [0, 1, 2::nat]. i < length a)) \<and>
    (\<forall>a. (None :: int list option) = Some a \<longrightarrow> (\<forall>i \<in> set [0, 1, 2::nat]. i < length a))"
    by simp
  from t have a: "get_mini_batch stable_sort [0, 1, 2::nat] [[[1]], [[2], [3]], [[4::int]]] [1, 2, 1::int] None
       (Some [[10], [20], [30::int]]) None None (Some [0, 1, 2::nat]) True False =
     get_mini_batch stable_sort [0, 1, 2::nat] [[[1]], [[2], [3]], [[4::int]]] [1, 2, 1::int] None
       (Some [[10], [20], [30::int]]) None None (Some [0, 1, 2::nat]) False False"
    by (rule conjunct1)
  from t wf have c: "(\<exists>mb. get_mini_batch stable_sort [0, 1, 2::nat] [[[1]], [[2], [3]], [[4::int]]] [1, 2, 1::int] None
       (Some [[10], [20], [30::int]]) None None (Some [0, 1, 2::nat]) True False = Inr mb \<and>
       (\<forall>v \<in> set (data (mb_reversed_packed mb)). length v = 1))"
    by blast
  have h: "get_mini_batch stable_sort [0, 1, 2::nat] [[[1]], [[2], [3]], [[4::int]]] [1, 2, 1::int] None
       (Some [[10], [20], [30::int]]) None None (Some [0, 1, 2::nat]) True False =
     Inr \<lparr>mb_static = [[20], [30], [10]], mb_sequence = [[[2], [3]], [[4], [0]], [[1], [0]]],
        mb_reversed_packed = \<lparr>data = [[3], [4], [1], [2]], batch_sizes = [3, 1]\<rparr>,
        mb_mask = [[1, 1], [1, 0], [1, 0]], mb_sorted_seq_lengths = [2, 1, 1],
        mb_feature_mask = None, mb_y = None, mb_y_mask = None,
        mb_source_indices = [1, 2, 0]\<rparr>"
    by code_simp
  from a h c show ?thesis by (intro conjI)
qed

subsection \<open>Arrays of different leading dimension\<close>

lemma ebind_eq_Inl: "ebind m f = Inl e \<longleftrightarrow> m = Inl e \<or> (\<exists>v. m = Inr v \<and> f v = Inl e)"
  by (cases m) simp_all

lemma np_take_Inl_IndexError: "np_take arr idx = Inl e \<Longrightarrow> e = IndexError"
proof (induction idx)
  case Nil
  then show ?case by (simp add: np_take_def)
next
  case (Cons i idx)
  then show ?case
    by (auto simp: np_take_def ebind_eq_Inl split: if_splits)
qed

lemma np_take_opt_Inl_IndexError: "np_take_opt arr idx = Inl e \<Longrightarrow> e = IndexError"
  by (cases arr) (auto simp: np_take_opt_def ebind_eq_Inl dest: np_take_Inl_IndexError)

lemma batchify_filter_Inl_IndexError:
  "batchify_filter sequences seq_lengths fm static y ymask max_len = Inl e \<Longrightarrow> e = IndexError"
  by (auto simp: batchify_filter_def Let_def ebind_eq_Inl
      dest: np_take_Inl_IndexError np_take_opt_Inl_IndexError)

lemma batchify_filter_InrD_opt:
  assumes "batchify_filter sequences seq_lengths fm static y ymask max_len = Inr k"
  shows "\<forall>a. y = Some a \<longrightarrow> (\<forall>i \<in> set (keep_index k). i < length a)"
    and "\<forall>a. ymask = Some a \<longrightarrow> (\<forall>i \<in> set (keep_index k). i < length a)"
proof -
  let ?keep = "keep_index_of seq_lengths max_len"
  from assms obtain sy sm where
    5: "np_take_opt y ?keep = Inr sy" and 6: "np_take_opt ymask ?keep = Inr sm"
    and k: "keep_index k = ?keep"
    by (auto simp: batchify_filter_def Let_def ebind_eq_Inr)
  show "\<forall>a. y = Some a \<longrightarrow> (\<forall>i \<in> set (keep_index k). i < length a)"
    using np_take_opt_eq_Inr(2) [OF 5] by (simp add: k)
  show "\<forall>a. ymask = Some a \<longrightarrow> (\<forall>i \<in> set (keep_index k). i < length a)"
    using np_take_opt_eq_Inr(2) [OF 6] by (simp add: k)
qed

lemma emap_cong_set: "(\<And>x. x \<in> set xs \<Longrightarrow> f x = g x) \<Longrightarrow> emap f xs = emap g xs"
  by (induction xs) simp_all

lemma np_take_take:
  assumes "\<forall>i \<in> set idx. i < n"
  shows "np_take (take n arr) idx = np_take arr idx"
  unfolding np_take_def
proof (rule emap_cong_set)
  fix i assume "i \<in> set idx"
  with assms have "i < n" by blast
  then show "(if i < length (take n arr) then Inr (take n arr ! i) else Inl IndexError) =
      (if i < length arr then Inr (arr ! i) else Inl IndexError)"
    by simp
qed

lemma np_take_opt_take:
  "\<forall>i \<in> set idx. i < n \<Longrightarrow> np_take_opt (map_option (take n) arr) idx = np_take_opt arr idx"
  by (cases arr) (simp_all add: np_take_opt_def np_take_take)

lemma batchify_filter_take:
  "batchify_filter (take (length seq_lengths) sequences) seq_lengths
       (map_option (take (length seq_lengths)) fm) (take (length seq_lengths) static)
       (map_option (take (length seq_lengths)) y) (map_option (take (length seq_lengths)) ymask)
       max_len =
     batchify_filter sequences seq_lengths fm static y ymask max_len"
proof -
  have k: "\<forall>i \<in> set (keep_index_of seq_lengths max_len). i < length seq_lengths"
    by (simp add: keep_index_of_set)
  show ?thesis
    unfolding batchify_filter_def Let_def
    by (simp only: np_take_take [OF k] np_take_opt_take [OF k])
qed

lemma batchify_filter_returns:
  assumes "length seq_lengths \<le> length static" and "length seq_lengths \<le> length sequences"
    and "\<forall>m. fm = Some m \<longrightarrow> length seq_lengths \<le> length m"
    and "\<forall>a. y = Some a \<longrightarrow> length seq_lengths \<le> length a"
    and "\<forall>a. ymask = Some a \<longrightarrow> length seq_lengths \<le> length a"
  shows "batchify_filter sequences seq_lengths fm static y ymask max_len =
     Inr \<lparr>keep_index = keep_index_of seq_lengths max_len,
          kept_static = map ((!) static) (keep_index_of seq_lengths max_len),
          kept_sequences = map ((!) sequences) (keep_index_of seq_lengths max_len),
          kept_seq_lengths = map ((!) seq_lengths) (keep_index_of seq_lengths max_len),
          kept_feature_mask = map_option (\<lambda>a. map ((!) a) (keep_index_of seq_lengths max_len)) fm,
          kept_y = map_option (\<lambda>a. map ((!) a) (keep_index_of seq_lengths max_len)) y,
          kept_y_mask = map_option (\<lambda>a. map ((!) a) (keep_index_of seq_lengths max_len)) ymask\<rparr>"
proof -
  let ?keep = "keep_index_of seq_lengths max_len"
  have k: "i < length seq_lengths" if "i \<in> set ?keep" for i
    using that by (simp add: keep_index_of_set)
  have 1: "np_take static ?keep = Inr (map ((!) static) ?keep)"
    using k assms(1) by (intro np_take_Inr) fastforce
  have 2: "np_take sequences ?keep = Inr (map ((!) sequences) ?keep)"
    using k assms(2) by (intro np_take_Inr) fastforce
  have 3: "np_take seq_lengths ?keep = Inr (map ((!) seq_lengths) ?keep)"
    using k by (intro np_take_Inr) fastforce
  have 4: "np_take_opt fm ?keep = Inr (map_option (\<lambda>a. map ((!) a) ?keep) fm)"
    using k assms(3) by (intro np_take_opt_Inr) fastforce
  have 5: "np_take_opt y ?keep = Inr (map_option (\<lambda>a. map ((!) a) ?keep) y)"
    using k assms(4) by (intro np_take_opt_Inr) fastforce
  have 6: "np_take_opt ymask ?keep = Inr (map_option (\<lambda>a. map ((!) a) ?keep) ymask)"
    using k assms(5) by (intro np_take_opt_Inr) fastforce
  show ?thesis by (simp add: batchify_filter_def Let_def 1 2 3 4 5 6)
qed

lemma ceiling_chunks:
  assumes "0 < (b::nat)"
  shows "\<lceil>(of_nat N :: rat) / of_int (int b)\<rceil> = int (N div b + (if N mod b = 0 then 0 else 1))"
proof -
  have "\<lceil>(of_int (int N) :: rat) / of_int (int b)\<rceil> = - (- int N div int b)"
    by (rule ceiling_divide_eq_div)
  also have "\<dots> = int N div int b + (if int N mod int b = 0 then 0 else 1)"
    using assms by (simp add: zdiv_zminus1_eq_if)
  also have "int N div int b = int (N div b)" by (simp add: zdiv_int)
  also have "(int N mod int b = 0) = (N mod b = 0)"
    by (metis of_nat_eq_0_iff zmod_int)
  finally show ?thesis by simp
qed

lemma batchify_returns_all:
  assumes ok: "batchify srt sequences seq_lengths fm static y ymask max_len batch_size use cuda = Inr batches"
    and bs: "1 \<le> batch_size"
  shows "int (length batches) =
      \<lceil>(of_nat (length (keep_index_of seq_lengths max_len)) :: rat) / of_int batch_size\<rceil>"
    and "mset (concat (map mb_source_indices batches)) = mset (keep_index_of seq_lengths max_len)"
proof -
  define keep where "keep = keep_index_of seq_lengths max_len"
  define N where "N = length keep"
  define b where "b = nat batch_size"
  define n where "n = N div b + (if N mod b = 0 then 0 else 1)"
  have b0: "0 < b" and bsz: "batch_size = int b" using bs by (simp_all add: b_def)
  from batchify_InrD [OF ok] obtain k where
    k: "batchify_filter sequences seq_lengths fm static y ymask max_len = Inr k"
    and lb0: "length batches = nat (N_mini_batches_of (length (keep_index k)) batch_size)"
    and each0: "\<forall>j < length batches.
        get_mini_batch srt (mini_batch_indices_of (length (keep_index k)) batch_size j)
          (kept_sequences k) (kept_seq_lengths k) (kept_feature_mask k)
          (Some (kept_static k)) (kept_y k) (kept_y_mask k) (Some (keep_index k)) use cuda =
        Inr (batches ! j)"
    by blast
  have kk: "keep_index k = keep"
    using batchify_filter_InrD(1) [OF k] by (simp add: keep_def)
  have lb: "length batches = n"
    using lb0 nat_N_mini_batches_of [OF b0, of N] by (simp add: kk N_def bsz n_def)
  show "int (length batches) =
      \<lceil>(of_nat (length (keep_index_of seq_lengths max_len)) :: rat) / of_int batch_size\<rceil>"
    using ceiling_chunks [OF b0, of N] lb
    by (simp only: keep_def [symmetric] N_def [symmetric] bsz n_def)
  note cb = chunks_bounds [OF b0 n_def]
  have keep_chunk: "map ((!) keep) (mini_batch_indices_of N (int b) j) = take b (drop (j * b) keep)"
    for j
  proof -
    have "map ((!) keep) (mini_batch_indices_of N (int b) j) =
        take b (drop (j * b) (map ((!) keep) [0..<N]))"
      by (simp add: mini_batch_indices_of_take_drop take_map drop_map)
    then show ?thesis by (simp add: N_def map_nth)
  qed
  have src: "mset (mb_source_indices (batches ! j)) = mset (take b (drop (j * b) keep))"
    if "j < n" for j
  proof -
    from that lb each0 have "get_mini_batch srt (mini_batch_indices_of N (int b) j)
          (kept_sequences k) (kept_seq_lengths k) (kept_feature_mask k)
          (Some (kept_static k)) (kept_y k) (kept_y_mask k) (Some keep) use cuda =
        Inr (batches ! j)"
      by (simp add: kk N_def bsz)
    from get_mini_batch_source_mset(1) [OF this] keep_chunk [of j] show ?thesis by simp
  qed
  have "map (\<lambda>mb. mset (mb_source_indices mb)) batches =
      map (\<lambda>j. mset (mb_source_indices (batches ! j))) [0..<n]"
    by (rule nth_equalityI) (simp_all add: lb)
  also have "\<dots> = map (\<lambda>j. mset (take b (drop (j * b) keep))) [0..<n]"
    using src by simp
  finally have "mset (concat (map mb_source_indices batches)) =
      mset (concat (map (\<lambda>j. take b (drop (j * b) keep)) [0..<n]))"
    by (simp add: mset_concat comp_def)
  also have "\<dots> = mset (take (n * b) keep)" by (simp only: concat_chunks)
  also have "\<dots> = mset keep" using cb(1) by (simp add: N_def)
  finally show "mset (concat (map mb_source_indices batches)) = mset (keep_index_of seq_lengths max_len)"
    by (simp add: keep_def)
qed


lemma batchify_take:
  "batchify srt (take (length seq_lengths) sequences) seq_lengths
       (map_option (take (length seq_lengths)) fm) (take (length seq_lengths) static)
       (map_option (take (length seq_lengths)) y) (map_option (take (length seq_lengths)) ymask)
       max_len batch_size use cuda =
     batchify srt sequences seq_lengths fm static y ymask max_len batch_size use cuda"
  unfolding batchify_def by (simp only: batchify_filter_take)

lemma batchify_short:
  assumes short: "\<exists>i \<in> set (keep_index_of seq_lengths max_len).
       length static \<le> i \<or> length sequences \<le> i \<or> (\<exists>m. fm = Some m \<and> length m \<le> i) \<or>
       (\<exists>a. y = Some a \<and> length a \<le> i) \<or> (\<exists>a. ymask = Some a \<and> length a \<le> i)"
  shows "batchify srt sequences seq_lengths fm static y ymask max_len batch_size use cuda = Inl IndexError"
proof (cases "batchify_filter sequences seq_lengths fm static y ymask max_len")
  case (Inl e)
  from batchify_filter_Inl_IndexError [OF Inl] Inl show ?thesis
    by (simp add: batchify_def)
next
  case (Inr k)
  note f = batchify_filter_InrD [OF Inr] and g = batchify_filter_InrD_opt [OF Inr]
  from short obtain i where i: "i \<in> set (keep_index k)"
    and bad: "length static \<le> i \<or> length sequences \<le> i \<or> (\<exists>m. fm = Some m \<and> length m \<le> i) \<or>
     (\<exists>a. y = Some a \<and> length a \<le> i) \<or> (\<exists>a. ymask = Some a \<and> length a \<le> i)"
    unfolding f(1) by blast
  from f(8) i have "i < length static" "i < length sequences" by blast+
  moreover from f(9) i have "fm = Some m \<Longrightarrow> i < length m" for m by blast
  moreover from g(1) i have "y = Some a \<Longrightarrow> i < length a" for a by blast
  moreover from g(2) i have "ymask = Some a \<Longrightarrow> i < length a" for a by blast
  ultimately have False using bad by (auto simp: not_le [symmetric])
  then show ?thesis ..
qed

lemma batchify_length:
  assumes ok: "batchify srt sequences seq_lengths fm static y ymask max_len batch_size use cuda = Inr batches"
  shows "length batches =
      nat (N_mini_batches_of (length (keep_index_of seq_lengths max_len)) batch_size)"
proof -
  from batchify_InrD [OF ok] obtain k where
    k: "batchify_filter sequences seq_lengths fm static y ymask max_len = Inr k"
    and n: "length batches = nat (N_mini_batches_of (length (keep_index k)) batch_size)"
    by blast
  from batchify_filter_InrD(1) [OF k] n show ?thesis by simp
qed

text \<open>
  C9, as amended. \<open>batchify\<close> does not compare the leading dimensions of its arrays and
  raises no error of its own for them. When \<open>static\<close>, \<open>sequences\<close> or a present feature
  mask, \<open>y\<close> or \<open>y_mask\<close> has no entry at some kept index, the gather at entry raises
  \<open>IndexError\<close> and no mini-batch is built. When every array has at least as many entries
  as \<open>seq_lengths\<close>, the gather raises nothing and keeps the entries at the kept indices.
  Entries beyond the first \<open>len(seq_lengths)\<close> of an array are never read: the call gives
  what it gives on the arrays cut to \<open>len(seq_lengths)\<close> entries. Whenever \<open>batchify\<close>
  returns, it returns the whole list: as many MiniBatches as the loop has passes, which
  for \<open>batch_size \<ge> 1\<close> is \<open>ceil(N / batch_size)\<close> for the \<open>N\<close> kept examples, and
  together they hold every kept example once.
\<close>

theorem batchify_short_array_fails:
  "((\<exists>i \<in> set (keep_index_of seq_lengths max_len).
       length static \<le> i \<or> length sequences \<le> i \<or> (\<exists>m. fm = Some m \<and> length m \<le> i) \<or>
       (\<exists>a. y = Some a \<and> length a \<le> i) \<or> (\<exists>a. ymask = Some a \<and> length a \<le> i)) \<longrightarrow>
     batchify srt sequences seq_lengths fm static y ymask max_len batch_size use cuda = Inl IndexError) \<and>
   (\<forall>batches.
      batchify srt sequences seq_lengths fm static y ymask max_len batch_size use cuda = Inr batches \<longrightarrow>
      length batches =
        nat (N_mini_batches_of (length (keep_index_of seq_lengths max_len)) batch_size)) \<and>
   (length seq_lengths \<le> length static \<and> length seq_lengths \<le> length sequences \<and>
    (\<forall>m. fm = Some m \<longrightarrow> length seq_lengths \<le> length m) \<and>
    (\<forall>a. y = Some a \<longrightarrow> length seq_lengths \<le> length a) \<and>
    (\<forall>a. ymask = Some a \<longrightarrow> length seq_lengths \<le> length a) \<longrightarrow>
    batchify_filter sequences seq_lengths fm static y ymask max_len =
      Inr \<lparr>keep_index = keep_index_of seq_lengths max_len,
           kept_static = map ((!) static) (keep_index_of seq_lengths max_len),
           kept_sequences = map ((!) sequences) (keep_index_of seq_lengths max_len),
           kept_seq_lengths = map ((!) seq_lengths) (keep_index_of seq_lengths max_len),
           kept_feature_mask = map_option (\<lambda>a. map ((!) a) (keep_index_of seq_lengths max_len)) fm,
           kept_y = map_option (\<lambda>a. map ((!) a) (keep_index_of seq_lengths max_len)) y,
           kept_y_mask = map_option (\<lambda>a. map ((!) a) (keep_index_of seq_lengths max_len)) ymask\<rparr>) \<and>
   batchify srt sequences seq_lengths fm static y ymask max_len batch_size use cuda =
     batchify srt (take (length seq_lengths) sequences) seq_lengths
       (map_option (take (length seq_lengths)) fm) (take (length seq_lengths) static)
       (map_option (take (length seq_lengths)) y) (map_option (take (length seq_lengths)) ymask)
       max_len batch_size use cuda \<and>
   (\<forall>batches.
      batchify srt sequences seq_lengths fm static y ymask max_len batch_size use cuda = Inr batches \<and>
      1 \<le> batch_size \<longrightarrow>
      int (length batches) =
        \<lceil>(of_nat (length (keep_index_of seq_lengths max_len)) :: rat) / of_int batch_size\<rceil> \<and>
      mset (concat (map mb_source_indices batches)) = mset (keep_index_of seq_lengths max_len))"
proof (intro conjI impI allI)
  assume "\<exists>i \<in> set (keep_index_of seq_lengths max_len).
       length static \<le> i \<or> length sequences \<le> i \<or> (\<exists>m. fm = Some m \<and> length m \<le> i) \<or>
       (\<exists>a. y = Some a \<and> length a \<le> i) \<or> (\<exists>a. ymask = Some a \<and> length a \<le> i)"
  then show "batchify srt sequences seq_lengths fm static y ymask max_len batch_size use cuda =
      Inl IndexError"
    by (rule batchify_short)
next
  fix batches
  assume "batchify srt sequences seq_lengths fm static y ymask max_len batch_size use cuda = Inr batches"
  then show "length batches =
      nat (N_mini_batches_of (length (keep_index_of seq_lengths max_len)) batch_size)"
    by (rule batchify_length)
next
  assume "length seq_lengths \<le> length static \<and> length seq_lengths \<le> length sequences \<and>
    (\<forall>m. fm = Some m \<longrightarrow> length seq_lengths \<le> length m) \<and>
    (\<forall>a. y = Some a \<longrightarrow> length seq_lengths \<le> length a) \<and>
    (\<forall>a. ymask = Some a \<longrightarrow> length seq_lengths \<le> length a)"
  then show "batchify_filter sequences seq_lengths fm static y ymask max_len =
      Inr \<lparr>keep_index = keep_index_of seq_lengths max_len,
           kept_static = map ((!) static) (keep_index_of seq_lengths max_len),
           kept_sequences = map ((!) sequences) (keep_index_of seq_lengths max_len),
           kept_seq_lengths = map ((!) seq_lengths) (keep_index_of seq_lengths max_len),
           kept_feature_mask = map_option (\<lambda>a. map ((!) a) (keep_index_of seq_lengths max_len)) fm,
           kept_y = map_option (\<lambda>a. map ((!) a) (keep_index_of seq_lengths max_len)) y,
           kept_y_mask = map_option (\<lambda>a. map ((!) a) (keep_index_of seq_lengths max_len)) ymask\<rparr>"
    by (intro batchify_filter_returns) blast+
next
  show "batchify srt sequences seq_lengths fm static y ymask max_len batch_size use cuda =
     batchify srt (take (length seq_lengths) sequences) seq_lengths
       (map_option (take (length seq_lengths)) fm) (take (length seq_lengths) static)
       (map_option (take (length seq_lengths)) y) (map_option (take (length seq_lengths)) ymask)
       max_len batch_size use cuda"
    by (rule batchify_take [symmetric])
next
  fix batches
  assume a: "batchify srt sequences seq_lengths fm static y ymask max_len batch_size use cuda = Inr batches \<and>
      1 \<le> batch_size"
  then have ok: "batchify srt sequences seq_lengths fm static y ymask max_len batch_size use cuda =
      Inr batches" and bs: "1 \<le> batch_size"
    by blast+
  show "int (length batches) =
      \<lceil>(of_nat (length (keep_index_of seq_lengths max_len)) :: rat) / of_int batch_size\<rceil>"
    by (rule batchify_returns_all(1) [OF ok bs])
  show "mset (concat (map mb_source_indices batches)) = mset (keep_index_of seq_lengths max_len)"
    by (rule batchify_returns_all(2) [OF ok bs])
qed

theorem batchify_short_array_fails_witness:
  "batchify stable_sort [[[5]], [[6::int]]] [1, 1] None [[1]] None None 100 1 False False = Inl IndexError \<and>
   (\<exists>batches.
      batchify stable_sort [[[5]], [[6], [7]], [[8]], [[9::int]]] [1, 2, 1::int]
        (Some [[[1]], [[0], [1]], [[1]], [[0]], [[1::int]]]) [[1], [2], [3], [4::int]]
        (Some [0, 1, 0, 1::int]) (Some [1, 1, 1, 1, 1::int]) 100 2 True False = Inr batches \<and>
      length batches = nat (N_mini_batches_of (length (keep_index_of [1, 2, 1::int] 100)) 2) \<and>
      batchify_filter [[[5]], [[6], [7]], [[8]], [[9::int]]] [1, 2, 1::int]
        (Some [[[1]], [[0], [1]], [[1]], [[0]], [[1::int]]]) [[1], [2], [3], [4::int]]
        (Some [0, 1, 0, 1::int]) (Some [1, 1, 1, 1, 1::int]) 100 =
        Inr \<lparr>keep_index = keep_index_of [1, 2, 1::int] 100,
           kept_static = map ((!) [[1], [2], [3], [4::int]]) (keep_index_of [1, 2, 1::int] 100),
           kept_sequences = map ((!) [[[5]], [[6], [7]], [[8]], [[9::int]]]) (keep_index_of [1, 2, 1::int] 100),
           kept_seq_lengths = map ((!) [1, 2, 1::int]) (keep_index_of [1, 2, 1::int] 100),
           kept_feature_mask =
             map_option (\<lambda>a. map ((!) a) (keep_index_of [1, 2, 1::int] 100)) (Some [[[1]], [[0], [1]], [[1]], [[0]], [[1::int]]]),
           kept_y = map_option (\<lambda>a. map ((!) a) (keep_index_of [1, 2, 1::int] 100)) (Some [0, 1, 0, 1::int]),
           kept_y_mask = map_option (\<lambda>a. map ((!) a) (keep_index_of [1, 2, 1::int] 100)) (Some [1, 1, 1, 1, 1::int])\<rparr> \<and>
      batchify stable_sort [[[5]], [[6], [7]], [[8]], [[9::int]]] [1, 2, 1::int]
        (Some [[[1]], [[0], [1]], [[1]], [[0]], [[1::int]]]) [[1], [2], [3], [4::int]]
        (Some [0, 1, 0, 1::int]) (Some [1, 1, 1, 1, 1::int]) 100 2 True False =
      batchify stable_sort (take (length [1, 2, 1::int]) [[[5]], [[6], [7]], [[8]], [[9::int]]]) [1, 2, 1::int]
        (map_option (take (length [1, 2, 1::int])) (Some [[[1]], [[0], [1]], [[1]], [[0]], [[1::int]]]))
        (take (length [1, 2, 1::int]) [[1], [2], [3], [4::int]])
        (map_option (take (length [1, 2, 1::int])) (Some [0, 1, 0, 1::int]))
        (map_option (take (length [1, 2, 1::int])) (Some [1, 1, 1, 1, 1::int])) 100 2 True False \<and>
      int (length batches) = \<lceil>(of_nat (length (keep_index_of [1, 2, 1::int] 100)) :: rat) / of_int 2\<rceil> \<and>
      mset (concat (map mb_source_indices batches)) = mset (keep_index_of [1, 2, 1::int] 100) \<and>
      length batches = 2 \<and> keep_index_of [1, 2, 1::int] 100 = [0, 1, 2])"
proof (rule conjI)
  have short: "\<exists>i \<in> set (keep_index_of [1, 1] 100).
       length [[1::int]] \<le> i \<or> length [[[5]], [[6::int]]] \<le> i \<or>
       (\<exists>m. (None :: int list list list option) = Some m \<and> length m \<le> i) \<or>
       (\<exists>a. (None :: int list option) = Some a \<and> length a \<le> i) \<or>
       (\<exists>a. (None :: int list option) = Some a \<and> length a \<le> i)"
    by (simp add: keep_index_of_def)
  note s = batchify_short_array_fails [of "[1, 1]" 100 "[[1::int]]" "[[[5]], [[6::int]]]" None None None
      stable_sort 1 False False]
  from mp [OF conjunct1 [OF s] short]
  show "batchify stable_sort [[[5]], [[6::int]]] [1, 1] None [[1]] None None 100 1 False False = Inl IndexError" .
next
  let ?bs = "[\<lparr>mb_static = [[2], [1::int]], mb_sequence = [[[6], [7]], [[5], [0]]],
           mb_reversed_packed = \<lparr>data = [[7, 1], [5, 1], [6, 0]], batch_sizes = [2, 1]\<rparr>,
           mb_mask = [[1, 1], [1, 0]], mb_sorted_seq_lengths = [2, 1],
           mb_feature_mask = Some [[[0], [1]], [[1], [0]]],
           mb_y = Some [1, 0], mb_y_mask = Some [1, 1],
           mb_source_indices = [1, 0]\<rparr>,
         \<lparr>mb_static = [[3]], mb_sequence = [[[8]]],
           mb_reversed_packed = \<lparr>data = [[8, 1]], batch_sizes = [1]\<rparr>,
           mb_mask = [[1]], mb_sorted_seq_lengths = [1],
           mb_feature_mask = Some [[[1]]], mb_y = Some [0],
           mb_y_mask = Some [1], mb_source_indices = [2]\<rparr>]"
  have h: "batchify stable_sort [[[5]], [[6], [7]], [[8]], [[9::int]]] [1, 2, 1::int]
        (Some [[[1]], [[0], [1]], [[1]], [[0]], [[1::int]]]) [[1], [2], [3], [4::int]]
        (Some [0, 1, 0, 1::int]) (Some [1, 1, 1, 1, 1::int]) 100 2 True False = Inr ?bs"
    by code_simp
  have long: "length [1, 2, 1::int] \<le> length [[1], [2], [3], [4::int]] \<and>
      length [1, 2, 1::int] \<le> length [[[5]], [[6], [7]], [[8]], [[9::int]]] \<and>
      (\<forall>m. (Some [[[1]], [[0], [1]], [[1]], [[0]], [[1::int]]]) = Some m \<longrightarrow> length [1, 2, 1::int] \<le> length m) \<and>
      (\<forall>a. (Some [0, 1, 0, 1::int]) = Some a \<longrightarrow> length [1, 2, 1::int] \<le> length a) \<and>
      (\<forall>a. (Some [1, 1, 1, 1, 1::int]) = Some a \<longrightarrow> length [1, 2, 1::int] \<le> length a)"
    by auto
  have bs: "(1::int) \<le> 2" by simp
  note t = batchify_short_array_fails [of "[1, 2, 1::int]" 100 "[[1], [2], [3], [4::int]]" "[[[5]], [[6], [7]], [[8]], [[9::int]]]"
      "Some [[[1]], [[0], [1]], [[1]], [[0]], [[1::int]]]" "Some [0, 1, 0, 1::int]" "Some [1, 1, 1, 1, 1::int]"
      stable_sort 2 True False]
  note t2 = t [THEN conjunct2, THEN conjunct1, THEN spec, THEN mp, OF h]
  note t3 = t [THEN conjunct2, THEN conjunct2, THEN conjunct1, THEN mp, OF long]
  note t4 = t [THEN conjunct2, THEN conjunct2, THEN conjunct2, THEN conjunct1]
  note t5 = t [THEN conjunct2, THEN conjunct2, THEN conjunct2, THEN conjunct2, THEN spec, THEN mp,
      OF conjI [OF h bs]]
  have l: "length ?bs = 2" by simp
  have k: "keep_index_of [1, 2, 1::int] 100 = [0, 1, 2]" by code_simp
  show "\<exists>batches.
      batchify stable_sort [[[5]], [[6], [7]], [[8]], [[9::int]]] [1, 2, 1::int]
        (Some [[[1]], [[0], [1]], [[1]], [[0]], [[1::int]]]) [[1], [2], [3], [4::int]]
        (Some [0, 1, 0, 1::int]) (Some [1, 1, 1, 1, 1::int]) 100 2 True False = Inr batches \<and>
      length batches = nat (N_mini_batches_of (length (keep_index_of [1, 2, 1::int] 100)) 2) \<and>
      batchify_filter [[[5]], [[6], [7]], [[8]], [[9::int]]] [1, 2, 1::int]
        (Some [[[1]], [[0], [1]], [[1]], [[0]], [[1::int]]]) [[1], [2], [3], [4::int]]
        (Some [0, 1, 0, 1::int]) (Some [1, 1, 1, 1, 1::int]) 100 =
        Inr \<lparr>keep_index = keep_index_of [1, 2, 1::int] 100,
           kept_static = map ((!) [[1], [2], [3], [4::int]]) (keep_index_of [1, 2, 1::int] 100),
           kept_sequences = map ((!) [[[5]], [[6], [7]], [[8]], [[9::int]]]) (keep_index_of [1, 2, 1::int] 100),
           kept_seq_lengths = map ((!) [1, 2, 1::int]) (keep_index_of [1, 2, 1::int] 100),
           kept_feature_mask =
             map_option (\<lambda>a. map ((!) a) (keep_index_of [1, 2, 1::int] 100)) (Some [[[1]], [[0], [1]], [[1]], [[0]], [[1::int]]]),
           kept_y = map_option (\<lambda>a. map ((!) a) (keep_index_of [1, 2, 1::int] 100)) (Some [0, 1, 0, 1::int]),
           kept_y_mask = map_option (\<lambda>a. map ((!) a) (keep_index_of [1, 2, 1::int] 100)) (Some [1, 1, 1, 1, 1::int])\<rparr> \<and>
      batchify stable_sort [[[5]], [[6], [7]], [[8]], [[9::int]]] [1, 2, 1::int]
        (Some [[[1]], [[0], [1]], [[1]], [[0]], [[1::int]]]) [[1], [2], [3], [4::int]]
        (Some [0, 1, 0, 1::int]) (Some [1, 1, 1, 1, 1::int]) 100 2 True False =
      batchify stable_sort (take (length [1, 2, 1::int]) [[[5]], [[6], [7]], [[8]], [[9::int]]]) [1, 2, 1::int]
        (map_option (take (length [1, 2, 1::int])) (Some [[[1]], [[0], [1]], [[1]], [[0]], [[1::int]]]))
        (take (length [1, 2, 1::int]) [[1], [2], [3], [4::int]])
        (map_option (take (length [1, 2, 1::int])) (Some [0, 1, 0, 1::int]))
        (map_option (take (length [1, 2, 1::int])) (Some [1, 1, 1, 1, 1::int])) 100 2 True False \<and>
      int (length batches) = \<lceil>(of_nat (length (keep_index_of [1, 2, 1::int] 100)) :: rat) / of_int 2\<rceil> \<and>
      mset (concat (map mb_source_indices batches)) = mset (keep_index_of [1, 2, 1::int] 100) \<and>
      length batches = 2 \<and> keep_index_of [1, 2, 1::int] 100 = [0, 1, 2]"
    by (rule exI [of _ ?bs]) (intro conjI h t2 t3 t4 conjunct1 [OF t5] conjunct2 [OF t5] l k)
qed

text \<open>
  As stated the property fails: arrays that disagree in leading dimension are accepted
  when none is too short, and the list of MiniBatches is returned.
\<close>

theorem batchify_short_array_fails_counterexample:
  "batchify stable_sort [[[5::int]]] [1] None [[1], [2]] None None 100 1 False False =
     Inr [\<lparr>mb_static = [[1]], mb_sequence = [[[5]]],
           mb_reversed_packed = \<lparr>data = [[5]], batch_sizes = [1]\<rparr>,
           mb_mask = [[1]], mb_sorted_seq_lengths = [1],
           mb_feature_mask = None, mb_y = None, mb_y_mask = None,
           mb_source_indices = [0]\<rparr>]"
  by code_simp

end
